theory Spec2Isabelle
  imports Main "HOL-Library.Sublist"
begin

section \<open>Strings\<close>

text \<open>
  JavaScript strings are modelled as \<^typ>\<open>string\<close> (ASCII). \<open>String.prototype.includes\<close>
  is the substring test; \<open>toLowerCase\<close> maps \<open>A..Z\<close> to \<open>a..z\<close> and leaves every other
  character alone.
\<close>

fun str_includes :: "string \<Rightarrow> string \<Rightarrow> bool" where
  "str_includes [] pat = (pat = [])"
| "str_includes (c # cs) pat = (prefix pat (c # cs) \<or> str_includes cs pat)"

definition lowerChar :: "char \<Rightarrow> char" where
  "lowerChar c =
     (case map_of (zip ''ABCDEFGHIJKLMNOPQRSTUVWXYZ'' ''abcdefghijklmnopqrstuvwxyz'') c of
        None \<Rightarrow> c
      | Some l \<Rightarrow> l)"

definition toLowerCase :: "string \<Rightarrow> string" where
  "toLowerCase s = map lowerChar s"

section \<open>services/broadcastQueueManager.js: data\<close>

text \<open>
  A task is a zero-argument asynchronous operation. The model describes it by what its
  promise does: the \<open>k\<close>-th invocation (counting from 0) settles \<open>d\<close> milliseconds after the
  call, fulfilled or rejected with an error. A task always returns a promise, which
  settles after a finite time; it does not throw synchronously. An error is the thrown
  object, of which the code reads only \<open>message\<close> (possibly absent).
\<close>

datatype js_error = JsError (message: "string option")

datatype outcome = Resolved | Rejected js_error

type_synonym task = "nat \<Rightarrow> nat \<times> outcome"

text \<open>The object built by \<open>addToQueue\<close> (lines 30-36).\<close>

record queueItem =
  task :: task
  priority :: int
  retries :: nat
  maxRetries :: nat
  addedAt :: nat

text \<open>\<open>this.stats\<close> (lines 18-23).\<close>

record stats =
  totalProcessed :: nat
  totalSuccess :: nat
  totalFailed :: nat
  totalRetries :: nat

text \<open>What \<open>getStats\<close> returns (lines 184-192) and what \<open>onProgress\<close> receives (lines 113-118).\<close>

record statsView =
  vStats :: stats
  vQueueLength :: nat
  vProcessing :: bool
  vCurrentConcurrent :: int
  vCircuitBreakerOpen :: bool

record progressInfo =
  pProcessed :: nat
  pSuccess :: nat
  pFailed :: nat
  pRemaining :: nat

text \<open>
  A \<open>_processTask\<close> activation that is suspended: either at \<open>await task()\<close>, with the
  outcome its promise will settle to, or at \<open>await this._wait(delay)\<close> in the retry branch.
\<close>

datatype pending = AwaitTask queueItem outcome | AwaitBackoff queueItem

text \<open>
  The manager object together with the part of the JavaScript event loop it uses.
  The fields \<open>queue\<close> to \<open>onComplete\<close> are those of the constructor (lines 7-27); a
  callback is identified by a handle. The rest is the run-time context:
  \<^item> \<open>now\<close>: the clock, in milliseconds;
  \<^item> \<open>circuitBreakerTimeout\<close>: the due time of the pending reset timer, \<open>None\<close> when
    the field is null or its timer has already fired (\<open>clearTimeout\<close> is then a no-op);
  \<^item> \<open>loopWake\<close>: the due time of the \<open>_wait\<close> in which the running \<open>processQueue\<close>
    activation is suspended, \<open>None\<close> when there is no activation;
  \<^item> \<open>inflight\<close>: the suspended \<open>_processTask\<close> activations with their due times, in
    dispatch order;
  \<^item> \<open>random\<close>, \<open>draws\<close>: the values \<open>Math.random() * 1000\<close> takes (in whole
    milliseconds) and how many were drawn;
  \<^item> \<open>attemptLog\<close>, \<open>progressCalls\<close>, \<open>completeCalls\<close>: observations, namely every
    call of a task (time and item) and every call of the two callbacks with its
    argument. The callbacks are taken to return normally and not to call the manager.
  Times are whole milliseconds; a timer fires at its due time or later, never before.
\<close>

record manager =
  queue :: "queueItem list"
  processing :: bool
  currentConcurrent :: int
  maxConcurrent :: int
  consecutiveFailures :: nat
  maxConsecutiveFailures :: nat
  circuitBreakerOpen :: bool
  circuitBreakerTimeout :: "nat option"
  mstats :: stats
  onProgress :: "nat option"
  onComplete :: "nat option"
  now :: nat
  loopWake :: "nat option"
  inflight :: "(nat \<times> pending) list"
  random :: "nat \<Rightarrow> nat"
  draws :: nat
  attemptLog :: "(nat \<times> queueItem) list"
  progressCalls :: "(nat \<times> progressInfo) list"
  completeCalls :: "(nat \<times> statsView) list"

definition zeroStats :: stats where
  "zeroStats = \<lparr>totalProcessed = 0, totalSuccess = 0, totalFailed = 0, totalRetries = 0\<rparr>"

text \<open>The constructor (lines 7-27), at clock 0 with a given source of random numbers.\<close>

definition newManager :: "(nat \<Rightarrow> nat) \<Rightarrow> manager" where
  "newManager rnd =
     \<lparr>queue = [], processing = False, currentConcurrent = 0, maxConcurrent = 5,
      consecutiveFailures = 0, maxConsecutiveFailures = 10, circuitBreakerOpen = False,
      circuitBreakerTimeout = None, mstats = zeroStats, onProgress = None, onComplete = None,
      now = 0, loopWake = None, inflight = [], random = rnd, draws = 0,
      attemptLog = [], progressCalls = [], completeCalls = []\<rparr>"

section \<open>Small methods\<close>

text \<open>\<open>resetStats\<close> (lines 209-216), \<open>setOnProgress\<close>, \<open>setOnComplete\<close> (lines 218-224),
  \<open>getStats\<close> (lines 184-192), \<open>clearQueue\<close> (lines 202-207).\<close>

definition resetStats :: "manager \<Rightarrow> manager" where
  "resetStats m = m\<lparr>mstats := zeroStats\<rparr>"

definition setOnProgress :: "nat option \<Rightarrow> manager \<Rightarrow> manager" where
  "setOnProgress cb m = m\<lparr>onProgress := cb\<rparr>"

definition setOnComplete :: "nat option \<Rightarrow> manager \<Rightarrow> manager" where
  "setOnComplete cb m = m\<lparr>onComplete := cb\<rparr>"

definition getStats :: "manager \<Rightarrow> statsView" where
  "getStats m =
     \<lparr>vStats = mstats m, vQueueLength = length (queue m), vProcessing = processing m,
      vCurrentConcurrent = currentConcurrent m, vCircuitBreakerOpen = circuitBreakerOpen m\<rparr>"

definition clearQueue :: "manager \<Rightarrow> nat \<times> manager" where
  "clearQueue m = (length (queue m), m\<lparr>queue := []\<rparr>)"

section \<open>Retry policy of the queue\<close>

text \<open>\<open>_isRetryable\<close> (lines 137-151).\<close>

definition retryableErrors :: "string list" where
  "retryableErrors =
     [''timeout'', ''etimedout'', ''rate limit'', ''too many requests'', ''network'',
      ''econnreset'', ''flood'']"

definition isRetryable :: "js_error \<Rightarrow> bool" where
  "isRetryable error =
     (let msg = (case message error of None \<Rightarrow> [] | Some s \<Rightarrow> toLowerCase s)
      in list_ex (\<lambda>e. str_includes msg e) retryableErrors)"

text \<open>
  \<open>_getRetryDelay\<close> (lines 153-159); the second argument is the value of
  \<open>Math.random() * 1000\<close>, a number in \<open>[0, 1000)\<close>.
\<close>

definition getRetryDelay :: "nat \<Rightarrow> nat \<Rightarrow> nat" where
  "getRetryDelay retryCount jitter =
     (let baseDelay = 1000; maxDelay = 30000;
          delay = min (baseDelay * 2 ^ retryCount) maxDelay
      in delay + jitter)"

section \<open>Enqueueing\<close>

text \<open>\<open>Array.prototype.findIndex\<close> (\<open>None\<close> for -1) and \<open>splice(i, 0, x)\<close>.\<close>

fun findIndex :: "('a \<Rightarrow> bool) \<Rightarrow> 'a list \<Rightarrow> nat option" where
  "findIndex P [] = None"
| "findIndex P (x # xs) = (if P x then Some 0 else map_option Suc (findIndex P xs))"

definition splice0 :: "nat \<Rightarrow> 'a \<Rightarrow> 'a list \<Rightarrow> 'a list" where
  "splice0 i x xs = take i xs @ x # drop i xs"

text \<open>The insertion of \<open>addToQueue\<close> (lines 38-47).\<close>

definition enqueue :: "queueItem \<Rightarrow> queueItem list \<Rightarrow> queueItem list" where
  "enqueue queueItem q =
     (if priority queueItem > 0 then
        (case findIndex (\<lambda>item. priority item < priority queueItem) q of
           None \<Rightarrow> q @ [queueItem]
         | Some insertIndex \<Rightarrow> splice0 insertIndex queueItem q)
      else q @ [queueItem])"

section \<open>Processing\<close>

text \<open>
  \<open>_processTask\<close> from its call to \<open>await task()\<close> (lines 105-108): the task is called and
  the activation is suspended until the promise settles. The call made when the item has
  been retried \<open>k\<close> times is the task's \<open>k\<close>-th one.
\<close>

definition startTask :: "queueItem \<Rightarrow> manager \<Rightarrow> manager" where
  "startTask queueItem m =
     (case task queueItem (retries queueItem) of
        (d, out) \<Rightarrow>
          m\<lparr>inflight := inflight m @ [(now m + d, AwaitTask queueItem out)],
            attemptLog := attemptLog m @ [(now m, queueItem)]\<rparr>)"

text \<open>The inner loop of \<open>processQueue\<close> (lines 73-92); the handlers attached by
  \<open>.then\<close> and \<open>.catch\<close> run when the activation completes, see \<open>settle\<close> below.\<close>

function dispatch :: "manager \<Rightarrow> manager" where
  "dispatch m =
     (case queue m of
        [] \<Rightarrow> m
      | queueItem # rest \<Rightarrow>
          if currentConcurrent m < maxConcurrent m then
            dispatch (startTask queueItem
              (m\<lparr>queue := rest, currentConcurrent := currentConcurrent m + 1\<rparr>))
          else m)"
  by pat_completeness auto
termination
  by (relation "measure (\<lambda>m. length (queue m))")
     (auto simp: startTask_def split: prod.splits)

declare dispatch.simps [simp del]

text \<open>
  \<open>processQueue\<close> from the test of the outer loop to the next \<open>await\<close> or to the return
  (lines 66-101). Both waits resume at the loop test, so one resumption point suffices.
\<close>

definition processQueueLoop :: "manager \<Rightarrow> manager" where
  "processQueueLoop m =
     (case queue m of
        [] \<Rightarrow>
          (let m1 = m\<lparr>processing := False, loopWake := None\<rparr>
           in case onComplete m1 of
                None \<Rightarrow> m1
              | Some cb \<Rightarrow> m1\<lparr>completeCalls := completeCalls m1 @ [(now m1, getStats m1)]\<rparr>)
      | _ # _ \<Rightarrow>
          if circuitBreakerOpen m then m\<lparr>loopWake := Some (now m + 5000)\<rparr>
          else (dispatch m)\<lparr>loopWake := Some (now m + 100)\<rparr>)"

text \<open>\<open>processQueue\<close> as called (lines 62-64, then the loop).\<close>

definition processQueue :: "manager \<Rightarrow> manager" where
  "processQueue m =
     (if processing m then m else processQueueLoop (m\<lparr>processing := True\<rparr>))"

text \<open>
  \<open>addToQueue\<close> (lines 29-54, \<open>newItem\<close> being the object of lines 30-36 with
  \<open>Date.now()\<close> read from the clock) and \<open>addBatch\<close> (lines 56-60). Both are \<open>async\<close>; the
  result is \<open>Inr\<close> when the returned promise is fulfilled and \<open>Inl\<close> when it is rejected.
  \<open>processQueue()\<close> is called without \<open>await\<close>, so nothing it does later reaches the
  caller. The \<open>await\<close> between two calls in \<open>addBatch\<close> lets only promise reactions run,
  no timer; the model makes the calls back to back.
\<close>

definition newItem :: "task \<Rightarrow> int \<Rightarrow> nat \<Rightarrow> queueItem" where
  "newItem t p time = \<lparr>task = t, priority = p, retries = 0, maxRetries = 3, addedAt = time\<rparr>"

definition addToQueue :: "task \<Rightarrow> int \<Rightarrow> manager \<Rightarrow> (js_error + queueItem) \<times> manager" where
  "addToQueue t p m =
     (let queueItem = newItem t p (now m);
          m1 = m\<lparr>queue := enqueue queueItem (queue m)\<rparr>;
          m2 = (if \<not> processing m1 then processQueue m1 else m1)
      in (Inr queueItem, m2))"

fun addBatch :: "task list \<Rightarrow> int \<Rightarrow> manager \<Rightarrow> (js_error + unit) \<times> manager" where
  "addBatch [] p m = (Inr (), m)"
| "addBatch (t # ts) p m =
     (case addToQueue t p m of
        (Inl e, m1) \<Rightarrow> (Inl e, m1)
      | (Inr _, m1) \<Rightarrow> addBatch ts p m1)"

text \<open>\<open>_openCircuitBreaker\<close> (lines 161-178) and the callback of its timer (lines 169-177).\<close>

definition openCircuitBreaker :: "manager \<Rightarrow> manager" where
  "openCircuitBreaker m =
     m\<lparr>circuitBreakerOpen := True, circuitBreakerTimeout := Some (now m + 30000)\<rparr>"

definition breakerReset :: "manager \<Rightarrow> manager" where
  "breakerReset m =
     (let m1 = m\<lparr>circuitBreakerOpen := False, consecutiveFailures := 0\<rparr>
      in case queue m1 of
           [] \<Rightarrow> m1
         | _ # _ \<Rightarrow> if \<not> processing m1 then processQueue m1 else m1)"

text \<open>The handlers attached to the promise of \<open>_processTask\<close> (lines 78-91).\<close>

definition thenHandler :: "manager \<Rightarrow> manager" where
  "thenHandler m = m\<lparr>currentConcurrent := currentConcurrent m - 1, consecutiveFailures := 0\<rparr>"

definition catchHandler :: "js_error \<Rightarrow> manager \<Rightarrow> manager" where
  "catchHandler error m =
     (let m1 = m\<lparr>currentConcurrent := currentConcurrent m - 1,
                 consecutiveFailures := consecutiveFailures m + 1\<rparr>
      in if consecutiveFailures m1 \<ge> maxConsecutiveFailures m1 then openCircuitBreaker m1
         else m1)"

text \<open>
  How a resumed \<open>_processTask\<close> activation leaves: its promise is fulfilled, it is rejected
  with the error thrown at line 132, or the activation is suspended again.
\<close>

datatype completion = Fulfilled | Thrown js_error | Suspended

definition settle :: "completion \<times> manager \<Rightarrow> manager" where
  "settle cm =
     (case cm of
        (Fulfilled, m) \<Rightarrow> thenHandler m
      | (Thrown error, m) \<Rightarrow> catchHandler error m
      | (Suspended, m) \<Rightarrow> m)"

text \<open>
  \<open>_processTask\<close> after \<open>await task()\<close> (lines 109-133). \<open>retries\<close> and \<open>maxRetries\<close> were
  read from the item at line 105, so the delay is computed from the count before the
  increment of line 122.
\<close>

definition processTaskResume :: "queueItem \<Rightarrow> outcome \<Rightarrow> manager \<Rightarrow> completion \<times> manager" where
  "processTaskResume queueItem out m =
     (case out of
        Resolved \<Rightarrow>
          (let s = mstats m;
               m1 = m\<lparr>mstats := s\<lparr>totalSuccess := totalSuccess s + 1,
                                    totalProcessed := totalProcessed s + 1\<rparr>\<rparr>;
               m2 = (case onProgress m1 of
                       None \<Rightarrow> m1
                     | Some cb \<Rightarrow>
                         m1\<lparr>progressCalls := progressCalls m1 @
                              [(now m1, \<lparr>pProcessed = totalProcessed (mstats m1),
                                          pSuccess = totalSuccess (mstats m1),
                                          pFailed = totalFailed (mstats m1),
                                          pRemaining = length (queue m1)\<rparr>)]\<rparr>)
           in (Fulfilled, m2))
      | Rejected error \<Rightarrow>
          if isRetryable error \<and> retries queueItem < maxRetries queueItem then
            (let queueItem' = queueItem\<lparr>retries := retries queueItem + 1\<rparr>;
                 s = mstats m;
                 m1 = m\<lparr>mstats := s\<lparr>totalRetries := totalRetries s + 1\<rparr>\<rparr>;
                 delay = getRetryDelay (retries queueItem) (random m1 (draws m1))
             in (Suspended,
                 m1\<lparr>draws := draws m1 + 1,
                    inflight := inflight m1 @ [(now m1 + delay, AwaitBackoff queueItem')]\<rparr>))
          else
            (let s = mstats m
             in (Thrown error,
                 m\<lparr>mstats := s\<lparr>totalFailed := totalFailed s + 1,
                                  totalProcessed := totalProcessed s + 1\<rparr>\<rparr>)))"

text \<open>\<open>_processTask\<close> after \<open>await this._wait(delay)\<close> (line 128, then the normal return).\<close>

definition backoffResume :: "queueItem \<Rightarrow> manager \<Rightarrow> completion \<times> manager" where
  "backoffResume queueItem m = (Fulfilled, m\<lparr>queue := queueItem # queue m\<rparr>)"

section \<open>The event loop\<close>

text \<open>
  Between two events the manager is at rest. An event is the expiry of the wait of
  \<open>processQueue\<close>, the expiry of the breaker's timer, or the resumption of the \<open>i\<close>-th
  suspended \<open>_processTask\<close> activation. Firing an event moves the clock to its due time and
  runs the code up to the next suspension. The continuation of \<open>_processTask\<close> and the
  handler that follows it are run as one step: they write disjoint fields, so their
  interleaving with the continuations of other tasks settling in the same tick does not
  change the result.
\<close>

datatype event = LoopWake | BreakerReset | Inflight nat

definition fire :: "event \<Rightarrow> manager \<Rightarrow> manager" where
  "fire e m =
     (case e of
        LoopWake \<Rightarrow>
          (case loopWake m of
             None \<Rightarrow> m
           | Some t \<Rightarrow> processQueueLoop (m\<lparr>now := max (now m) t\<rparr>))
      | BreakerReset \<Rightarrow>
          (case circuitBreakerTimeout m of
             None \<Rightarrow> m
           | Some t \<Rightarrow> breakerReset (m\<lparr>now := max (now m) t, circuitBreakerTimeout := None\<rparr>))
      | Inflight i \<Rightarrow>
          if i < length (inflight m) then
            (case inflight m ! i of
               (t, p) \<Rightarrow>
                 (let m1 = m\<lparr>now := max (now m) t,
                             inflight := take i (inflight m) @ drop (Suc i) (inflight m)\<rparr>
                  in case p of
                       AwaitTask queueItem out \<Rightarrow> settle (processTaskResume queueItem out m1)
                     | AwaitBackoff queueItem \<Rightarrow> settle (backoffResume queueItem m1)))
          else m)"

text \<open>
  The pending events with their due times. The scheduler fires the earliest one; among
  events due at the same time it takes the suspended tasks in dispatch order, then the
  loop, then the breaker's timer. The statements below that are made for one event hold
  for any pending event, whatever the scheduler would choose.
\<close>

definition pendingEvents :: "manager \<Rightarrow> (nat \<times> event) list" where
  "pendingEvents m =
     map (\<lambda>(i, tp). (fst tp, Inflight i)) (enumerate 0 (inflight m)) @
     (case loopWake m of None \<Rightarrow> [] | Some t \<Rightarrow> [(t, LoopWake)]) @
     (case circuitBreakerTimeout m of None \<Rightarrow> [] | Some t \<Rightarrow> [(t, BreakerReset)])"

fun earliest :: "(nat \<times> event) list \<Rightarrow> (nat \<times> event) option" where
  "earliest [] = None"
| "earliest (x # xs) =
     (case earliest xs of
        None \<Rightarrow> Some x
      | Some y \<Rightarrow> if fst x \<le> fst y then Some x else Some y)"

definition nextEvent :: "manager \<Rightarrow> event option" where
  "nextEvent m = map_option snd (earliest (pendingEvents m))"

text \<open>Running the event loop for at most \<open>n\<close> events; \<open>None\<close> when events remain.\<close>

fun run :: "nat \<Rightarrow> manager \<Rightarrow> manager option" where
  "run 0 m = (case nextEvent m of None \<Rightarrow> Some m | Some e \<Rightarrow> None)"
| "run (Suc n) m = (case nextEvent m of None \<Rightarrow> Some m | Some e \<Rightarrow> run n (fire e m))"

section \<open>index.js: the transfer with retry\<close>














definition baseDelay :: "string \<Rightarrow> nat \<Rightarrow> nat" where
  "baseDelay errorMsg attempt =
     (if str_includes errorMsg ''Rate limit'' then 15000 * attempt
      else if str_includes errorMsg ''Internal database error'' then 12000 * attempt
      else if str_includes errorMsg ''network guardians'' \<or> str_includes errorMsg ''syncing''
        then 10000 * attempt
      else 5000 * attempt)"





section \<open>index.js: the batch transfer\<close>


















section \<open>Notions used in the statements\<close>



text \<open>A sequence of \<open>addToQueue\<close> calls, one after the other at the same clock value.\<close>

fun addAll :: "(task \<times> int) list \<Rightarrow> manager \<Rightarrow> manager" where
  "addAll [] m = m"
| "addAll (r # rs) m = addAll rs (snd (addToQueue (fst r) (snd r) m))"


text \<open>Tasks and a random source for concrete runs.\<close>

definition okTask :: task where
  "okTask k = (0, Resolved)"

definition slowTask :: task where
  "slowTask k = (200, Resolved)"

definition rateLimitedError :: js_error where
  "rateLimitedError = JsError (Some ''rate limit'')"

definition rateLimitedTask :: task where
  "rateLimitedTask k = (0, Rejected rateLimitedError)"

definition forbiddenError :: js_error where
  "forbiddenError = JsError (Some ''Forbidden: bot was blocked by the user'')"

definition forbiddenTask :: task where
  "forbiddenTask k = (0, Rejected forbiddenError)"

definition noJitter :: "nat \<Rightarrow> nat" where
  "noJitter k = 0"

text \<open>A fresh manager with both callbacks registered and the stats reset.\<close>

definition freshManager :: manager where
  "freshManager = setOnComplete (Some 1) (setOnProgress (Some 2) (resetStats (newManager noJitter)))"




text \<open>Observations on a manager: how many task calls were made, how many items wait.\<close>

definition attemptCount :: "manager \<Rightarrow> nat" where
  "attemptCount m = length (attemptLog m)"

definition pendingCount :: "manager \<Rightarrow> nat" where
  "pendingCount m = length (queue m)"

definition progressCount :: "manager \<Rightarrow> nat" where
  "progressCount m = length (progressCalls m)"

text \<open>The runs of one slow task, one rate-limited task and one forbidden task.\<close>

definition slowRun :: "manager option" where
  "slowRun = run 2 (snd (addToQueue slowTask 0 freshManager))"

definition rateLimitedRun :: "manager option" where
  "rateLimitedRun = run 3 (snd (addToQueue rateLimitedTask 0 freshManager))"

definition forbiddenRun :: "manager option" where
  "forbiddenRun = run 2 (snd (addToQueue forbiddenTask 0 freshManager))"

text \<open>
  What the inner loop of \<open>processQueue\<close> does in one go: it starts the first
  \<open>dispatchCount\<close> items of the queue, each leaving the entry \<open>started\<close> in \<open>inflight\<close>.
\<close>

definition dispatchCount :: "manager \<Rightarrow> nat" where
  "dispatchCount m = min (length (queue m)) (nat (maxConcurrent m - currentConcurrent m))"

definition started :: "nat \<Rightarrow> queueItem \<Rightarrow> nat \<times> pending" where
  "started time queueItem =
     (time + fst (task queueItem (retries queueItem)),
      AwaitTask queueItem (snd (task queueItem (retries queueItem))))"


text \<open>
  The \<open>i\<close>-th suspended activation waits for its task, which will settle at time \<open>t\<close>
  with outcome \<open>out\<close>; or it waits for the end of its backoff at time \<open>t\<close>.
\<close>

definition settles :: "manager \<Rightarrow> nat \<Rightarrow> nat \<Rightarrow> queueItem \<Rightarrow> outcome \<Rightarrow> bool" where
  "settles m i t queueItem out =
     (i < length (inflight m) \<and> inflight m ! i = (t, AwaitTask queueItem out))"

definition backsOff :: "manager \<Rightarrow> nat \<Rightarrow> nat \<Rightarrow> queueItem \<Rightarrow> bool" where
  "backsOff m i t queueItem =
     (i < length (inflight m) \<and> inflight m ! i = (t, AwaitBackoff queueItem))"

text \<open>The test of line 121 fails: the error is not retryable or the retries are used up.\<close>

definition terminalFailure :: "queueItem \<Rightarrow> js_error \<Rightarrow> bool" where
  "terminalFailure queueItem error =
     (\<not> (isRetryable error \<and> retries queueItem < maxRetries queueItem))"

text \<open>
  The states the code can be in between two events: an open breaker has its timer
  pending, the in-flight counter counts the suspended activations, \<open>processing\<close> is set
  exactly while a \<open>processQueue\<close> activation is suspended, and the limit is positive.
\<close>

definition wellFormed :: "manager \<Rightarrow> bool" where
  "wellFormed m =
     ((circuitBreakerOpen m \<longrightarrow> circuitBreakerTimeout m \<noteq> None) \<and>
      currentConcurrent m = int (length (inflight m)) \<and>
      (processing m \<longleftrightarrow> loopWake m \<noteq> None) \<and>
      0 < maxConcurrent m)"

text \<open>The due time of a pending event.\<close>

definition dueTime :: "manager \<Rightarrow> event \<Rightarrow> nat option" where
  "dueTime m e =
     (case e of
        LoopWake \<Rightarrow> loopWake m
      | BreakerReset \<Rightarrow> circuitBreakerTimeout m
      | Inflight i \<Rightarrow> if i < length (inflight m) then Some (fst (inflight m ! i)) else None)"

text \<open>Twelve tasks that succeed at once, enqueued at priority 0, and their run.\<close>

definition twelveOk :: "(task \<times> int) list" where
  "twelveOk = replicate 12 (okTask, 0)"

definition twelveOkRun :: "manager option" where
  "twelveOkRun = run 17 (addAll twelveOk freshManager)"

text \<open>
  A bound on the work that is left, for the proof that the event loop comes to rest:
  every queued or suspended item counts with the steps it can still take (dispatch,
  failure, backoff, for each retry it has left), and the breaker's pending timer counts
  one. \<open>loopSlack\<close> bounds the number of idle polls of the loop before the next other
  event is due.
\<close>

definition itemBudget :: "queueItem \<Rightarrow> nat" where
  "itemBudget queueItem = 3 * (maxRetries queueItem - retries queueItem)"

definition queuedWeight :: "queueItem \<Rightarrow> nat" where
  "queuedWeight queueItem = itemBudget queueItem + 3"

fun pendingWeight :: "nat \<times> pending \<Rightarrow> nat" where
  "pendingWeight (t, AwaitTask queueItem out) = itemBudget queueItem + 2"
| "pendingWeight (t, AwaitBackoff queueItem) = itemBudget queueItem + 4"

definition timerWeight :: "nat option \<Rightarrow> nat" where
  "timerWeight timer = (case timer of None \<Rightarrow> 0 | Some t \<Rightarrow> 1)"

definition workLeft :: "manager \<Rightarrow> nat" where
  "workLeft m =
     sum_list (map queuedWeight (queue m)) + sum_list (map pendingWeight (inflight m)) +
     timerWeight (circuitBreakerTimeout m)"

definition horizon :: "manager \<Rightarrow> nat" where
  "horizon m =
     max (foldr max (map fst (inflight m)) 0)
         (case circuitBreakerTimeout m of None \<Rightarrow> 0 | Some t \<Rightarrow> t)"

definition loopSlack :: "manager \<Rightarrow> nat" where
  "loopSlack m = (case loopWake m of None \<Rightarrow> 0 | Some t \<Rightarrow> 1 + (horizon m + 1 - t))"

text \<open>
  The items that were pending in \<open>q0\<close> when the attempt log had length \<open>a0\<close> are served
  in \<open>m\<close>: a front part of \<open>q0\<close> has been called since, the rest is still at the end of the
  pending queue, and if some of it is left then the loop is running or the breaker's
  timer is pending.
\<close>

definition alive :: "manager \<Rightarrow> bool" where
  "alive m = (processing m \<or> circuitBreakerTimeout m \<noteq> None)"

definition served :: "queueItem list \<Rightarrow> nat \<Rightarrow> manager \<Rightarrow> bool" where
  "served q0 a0 m =
     (\<exists>j pre. queue m = pre @ drop j q0 \<and>
              set (take j q0) \<subseteq> snd ` set (drop a0 (attemptLog m)) \<and>
              a0 \<le> length (attemptLog m) \<and>
              (drop j q0 = [] \<or> alive m))"

text \<open>The items called since the attempt log had length \<open>a0\<close>.\<close>

definition calledSince :: "nat \<Rightarrow> manager \<Rightarrow> queueItem set" where
  "calledSince a0 m = snd ` set (drop a0 (attemptLog m))"




definition forbiddenItem :: queueItem where
  "forbiddenItem = newItem forbiddenTask 0 0"

text \<open>A rate-limited task just dispatched, and the state after its rejection.\<close>

definition rateLimitedItem :: queueItem where
  "rateLimitedItem = newItem rateLimitedTask 0 0"

definition rateLimitedStart :: manager where
  "rateLimitedStart = snd (addToQueue rateLimitedTask 0 freshManager)"

definition rateLimitedWaiting :: manager where
  "rateLimitedWaiting = fire (Inflight 0) rateLimitedStart"

text \<open>A failing task in flight with another task pending behind it.\<close>

definition failingPair :: manager where
  "failingPair = addAll [(forbiddenTask, 0), (okTask, 0)] freshManager"

section \<open>Notions used in the statements on the transfers\<close>






























text \<open>
  The counters are balanced when \<open>totalSuccess + totalFailed = totalProcessed\<close>; the items
  accounted for are those processed, pending or in flight.
\<close>

definition statsBalanced :: "manager \<Rightarrow> bool" where
  "statsBalanced m =
     (totalSuccess (mstats m) + totalFailed (mstats m) = totalProcessed (mstats m))"

definition accounted :: "manager \<Rightarrow> nat" where
  "accounted m = totalProcessed (mstats m) + length (queue m) + length (inflight m)"


section \<open>Helper lemmas: evaluation\<close>

lemma run_numeral:
  "run (numeral k) m =
     (case nextEvent m of None \<Rightarrow> Some m | Some e \<Rightarrow> run (pred_numeral k) (fire e m))"
  by (simp add: numeral_eq_Suc)

lemma rateLimited_retryable: "isRetryable rateLimitedError"
  by (simp add: rateLimitedError_def isRetryable_def retryableErrors_def toLowerCase_def
      lowerChar_def)

lemma forbidden_not_retryable: "\<not> isRetryable forbiddenError"
  by (simp add: forbiddenError_def isRetryable_def retryableErrors_def toLowerCase_def
      lowerChar_def)

lemmas queue_defs =
  freshManager_def setOnComplete_def setOnProgress_def resetStats_def newManager_def
  zeroStats_def addToQueue_def newItem_def enqueue_def processQueue_def processQueueLoop_def
  dispatch.simps startTask_def nextEvent_def pendingEvents_def fire_def settle_def
  processTaskResume_def thenHandler_def catchHandler_def getStats_def backoffResume_def
  rateLimited_retryable forbidden_not_retryable getRetryDelay_def
  openCircuitBreaker_def breakerReset_def noJitter_def okTask_def slowTask_def
  rateLimitedTask_def forbiddenTask_def

section \<open>resetStats\<close>

text \<open>
  C10. \<open>resetStats\<close> sets the four counters to zero and leaves every other field of the
  manager as it was: the pending items, the in-flight count, the breaker's flag and
  timer, the consecutive-failure counter, both callbacks, the processing flag and the
  suspended activations.
\<close>

theorem resetStats_frame:
  "totalProcessed (mstats (resetStats m)) = 0 \<and>
   totalSuccess (mstats (resetStats m)) = 0 \<and>
   totalFailed (mstats (resetStats m)) = 0 \<and>
   totalRetries (mstats (resetStats m)) = 0 \<and>
   queue (resetStats m) = queue m \<and>
   currentConcurrent (resetStats m) = currentConcurrent m \<and>
   maxConcurrent (resetStats m) = maxConcurrent m \<and>
   circuitBreakerOpen (resetStats m) = circuitBreakerOpen m \<and>
   circuitBreakerTimeout (resetStats m) = circuitBreakerTimeout m \<and>
   consecutiveFailures (resetStats m) = consecutiveFailures m \<and>
   maxConsecutiveFailures (resetStats m) = maxConsecutiveFailures m \<and>
   onProgress (resetStats m) = onProgress m \<and>
   onComplete (resetStats m) = onComplete m \<and>
   processing (resetStats m) = processing m \<and>
   loopWake (resetStats m) = loopWake m \<and>
   inflight (resetStats m) = inflight m \<and>
   resetStats m = m\<lparr>mstats := mstats (resetStats m)\<rparr>"
  by (simp add: resetStats_def zeroStats_def)

section \<open>Order of the pending queue\<close>




















section \<open>The processing loop, event by event\<close>

lemma startTask_eq:
  "startTask it m = m\<lparr>inflight := inflight m @ [started (now m) it],
                       attemptLog := attemptLog m @ [(now m, it)]\<rparr>"
  by (simp add: startTask_def started_def split: prod.splits)

lemma dispatch_closed:
  "dispatch m =
     m\<lparr>queue := drop (dispatchCount m) (queue m),
       currentConcurrent := currentConcurrent m + int (dispatchCount m),
       inflight := inflight m @ map (started (now m)) (take (dispatchCount m) (queue m)),
       attemptLog := attemptLog m @ map (Pair (now m)) (take (dispatchCount m) (queue m))\<rparr>"
proof (induction m rule: dispatch.induct)
  case (1 m)
  show ?case
  proof (cases "queue m")
    case Nil
    then show ?thesis by (subst dispatch.simps) (simp add: dispatchCount_def)
  next
    case (Cons queueItem rest)
    show ?thesis
    proof (cases "currentConcurrent m < maxConcurrent m")
      case True
      let ?m' = "startTask queueItem (m\<lparr>queue := rest, currentConcurrent := currentConcurrent m + 1\<rparr>)"
      have "nat (maxConcurrent m - currentConcurrent m) =
            Suc (nat (maxConcurrent m - (currentConcurrent m + 1)))"
        using True by linarith
      then have k: "dispatchCount m = Suc (dispatchCount ?m')"
        using Cons by (simp add: dispatchCount_def startTask_eq)
      have "dispatch m = dispatch ?m'"
        using Cons True by (subst dispatch.simps) simp
      also note "1.IH" [OF Cons True]
      finally show ?thesis using Cons by (simp add: k startTask_eq)
    next
      case False
      then have "dispatchCount m = 0" by (simp add: dispatchCount_def)
      then show ?thesis using Cons False by (subst dispatch.simps) simp
    qed
  qed
qed


lemma processQueueLoop_open:
  "queue m \<noteq> [] \<Longrightarrow> circuitBreakerOpen m \<Longrightarrow>
   processQueueLoop m = m\<lparr>loopWake := Some (now m + 5000)\<rparr>"
  by (simp add: processQueueLoop_def split: list.splits)

lemma processQueueLoop_closed:
  "queue m \<noteq> [] \<Longrightarrow> \<not> circuitBreakerOpen m \<Longrightarrow>
   processQueueLoop m = (dispatch m)\<lparr>loopWake := Some (now m + 100)\<rparr>"
  by (simp add: processQueueLoop_def split: list.splits)

lemma processQueueLoop_empty:
  "queue m = [] \<Longrightarrow>
   processQueueLoop m =
     (case onComplete m of
        None \<Rightarrow> m\<lparr>processing := False, loopWake := None\<rparr>
      | Some cb \<Rightarrow>
          m\<lparr>processing := False, loopWake := None,
            completeCalls := completeCalls m @
              [(now m, getStats (m\<lparr>processing := False, loopWake := None\<rparr>))]\<rparr>)"
  by (simp add: processQueueLoop_def Let_def split: option.splits)

lemma fire_terminal:
  assumes "settles m i t queueItem (Rejected error)" and "terminalFailure queueItem error"
  shows "fire (Inflight i) m =
           catchHandler error
             (m\<lparr>now := max (now m) t,
                inflight := take i (inflight m) @ drop (Suc i) (inflight m),
                mstats := (mstats m)\<lparr>totalFailed := totalFailed (mstats m) + 1,
                                     totalProcessed := totalProcessed (mstats m) + 1\<rparr>\<rparr>)"
  using assms
  by (auto simp: settles_def terminalFailure_def fire_def settle_def processTaskResume_def Let_def)

lemma fire_retry:
  assumes "settles m i t queueItem (Rejected error)" and "isRetryable error"
    and "retries queueItem < maxRetries queueItem"
  shows "fire (Inflight i) m =
           m\<lparr>now := max (now m) t,
             mstats := (mstats m)\<lparr>totalRetries := totalRetries (mstats m) + 1\<rparr>,
             draws := draws m + 1,
             inflight := take i (inflight m) @ drop (Suc i) (inflight m) @
               [(max (now m) t + getRetryDelay (retries queueItem) (random m (draws m)),
                 AwaitBackoff (queueItem\<lparr>retries := retries queueItem + 1\<rparr>))]\<rparr>"
  using assms
  by (simp add: settles_def fire_def settle_def processTaskResume_def Let_def)

lemma fire_success:
  assumes "settles m i t queueItem Resolved"
  shows "fire (Inflight i) m =
           thenHandler
             (case onProgress m of
                None \<Rightarrow>
                  m\<lparr>now := max (now m) t,
                    inflight := take i (inflight m) @ drop (Suc i) (inflight m),
                    mstats := (mstats m)\<lparr>totalSuccess := totalSuccess (mstats m) + 1,
                                         totalProcessed := totalProcessed (mstats m) + 1\<rparr>\<rparr>
              | Some cb \<Rightarrow>
                  m\<lparr>now := max (now m) t,
                    inflight := take i (inflight m) @ drop (Suc i) (inflight m),
                    mstats := (mstats m)\<lparr>totalSuccess := totalSuccess (mstats m) + 1,
                                         totalProcessed := totalProcessed (mstats m) + 1\<rparr>,
                    progressCalls := progressCalls m @
                      [(max (now m) t,
                        \<lparr>pProcessed = totalProcessed (mstats m) + 1,
                         pSuccess = totalSuccess (mstats m) + 1,
                         pFailed = totalFailed (mstats m),
                         pRemaining = length (queue m)\<rparr>)]\<rparr>)"
  using assms
  by (simp add: settles_def fire_def settle_def processTaskResume_def Let_def split: option.splits)

lemma fire_backoff:
  assumes "backsOff m i t queueItem"
  shows "fire (Inflight i) m =
           thenHandler
             (m\<lparr>now := max (now m) t,
                inflight := take i (inflight m) @ drop (Suc i) (inflight m),
                queue := queueItem # queue m\<rparr>)"
  using assms
  by (simp add: backsOff_def fire_def settle_def backoffResume_def Let_def)

lemma inflight_cases:
  assumes "i < length (inflight m)"
  obtains t queueItem where "settles m i t queueItem Resolved"
  | t queueItem error where "settles m i t queueItem (Rejected error)" "terminalFailure queueItem error"
  | t queueItem error where "settles m i t queueItem (Rejected error)" "isRetryable error"
      "retries queueItem < maxRetries queueItem"
  | t queueItem where "backsOff m i t queueItem"
proof (cases "inflight m ! i")
  case (Pair t p)
  show ?thesis
  proof (cases p)
    case (AwaitTask queueItem out)
    show ?thesis
    proof (cases out)
      case Resolved
      then show ?thesis using that(1) assms Pair AwaitTask by (simp add: settles_def)
    next
      case (Rejected error)
      show ?thesis
      proof (cases "isRetryable error \<and> retries queueItem < maxRetries queueItem")
        case True
        then show ?thesis using that(3) assms Pair AwaitTask Rejected by (simp add: settles_def)
      next
        case False
        then show ?thesis using that(2) assms Pair AwaitTask Rejected
          by (simp add: settles_def terminalFailure_def)
      qed
    qed
  next
    case (AwaitBackoff queueItem)
    then show ?thesis using that(4) assms Pair by (simp add: backsOff_def)
  qed
qed



lemma length_remove_nth:
  "i < length xs \<Longrightarrow> int (length (take i xs @ drop (Suc i) xs)) = int (length xs) - 1"
  by simp

lemma wellFormed_dispatch:
  assumes "currentConcurrent m = int (length (inflight m))"
  shows "currentConcurrent (dispatch m) = int (length (inflight (dispatch m)))"
proof -
  have "dispatchCount m \<le> length (queue m)" by (simp add: dispatchCount_def)
  then show ?thesis using assms by (simp add: dispatch_closed min_absorb2)
qed

lemma dispatch_frame:
  "processing (dispatch m) = processing m \<and>
   loopWake (dispatch m) = loopWake m \<and>
   circuitBreakerOpen (dispatch m) = circuitBreakerOpen m \<and>
   circuitBreakerTimeout (dispatch m) = circuitBreakerTimeout m \<and>
   consecutiveFailures (dispatch m) = consecutiveFailures m \<and>
   maxConcurrent (dispatch m) = maxConcurrent m \<and>
   maxConsecutiveFailures (dispatch m) = maxConsecutiveFailures m \<and>
   mstats (dispatch m) = mstats m \<and>
   now (dispatch m) = now m"
  by (simp add: dispatch_closed)

lemma wellFormed_processQueueLoop:
  assumes "wellFormed m" and "processing m"
  shows "wellFormed (processQueueLoop m)"
proof (cases "queue m = []")
  case True
  then show ?thesis using assms(1)
    by (simp add: processQueueLoop_empty wellFormed_def split: option.splits)
next
  case False
  show ?thesis
  proof (cases "circuitBreakerOpen m")
    case True
    then show ?thesis using False assms
      by (simp add: processQueueLoop_open wellFormed_def)
  next
    case closed: False
    have "currentConcurrent (dispatch m) = int (length (inflight (dispatch m)))"
      using assms(1) by (intro wellFormed_dispatch) (simp add: wellFormed_def)
    then show ?thesis using False closed assms dispatch_frame [of m]
      by (simp add: processQueueLoop_closed wellFormed_def)
  qed
qed

lemma wellFormed_processQueue:
  assumes "wellFormed m"
  shows "wellFormed (processQueue m)"
proof (cases "processing m")
  case True
  then show ?thesis using assms by (simp add: processQueue_def)
next
  case False
  let ?m1 = "m\<lparr>processing := True, loopWake := Some 0\<rparr>"
  have eq: "processQueueLoop (m\<lparr>processing := True\<rparr>) = processQueueLoop ?m1"
    by (cases "queue m")
       (auto simp: processQueueLoop_def Let_def dispatch_closed dispatchCount_def getStats_def
             split: option.splits)
  have "wellFormed ?m1" using assms by (simp add: wellFormed_def)
  then have "wellFormed (processQueueLoop ?m1)" by (rule wellFormed_processQueueLoop) simp
  then show ?thesis using False by (simp add: processQueue_def eq)
qed

lemma wellFormed_addToQueue:
  assumes "wellFormed m"
  shows "wellFormed (snd (addToQueue t p m))"
proof -
  have "wellFormed (m\<lparr>queue := enqueue (newItem t p (now m)) (queue m)\<rparr>)"
    using assms by (simp add: wellFormed_def)
  then show ?thesis
    by (auto simp: addToQueue_def Let_def intro: wellFormed_processQueue)
qed

lemma wellFormed_newManager: "wellFormed (newManager rnd)"
  by (simp add: wellFormed_def newManager_def)


lemma wellFormed_thenHandler:
  assumes "circuitBreakerOpen m \<longrightarrow> circuitBreakerTimeout m \<noteq> None"
    and "currentConcurrent m = int (length (inflight m)) + 1"
    and "processing m \<longleftrightarrow> loopWake m \<noteq> None" and "0 < maxConcurrent m"
  shows "wellFormed (thenHandler m)"
  using assms by (simp add: wellFormed_def thenHandler_def)

lemma wellFormed_catchHandler:
  assumes "circuitBreakerOpen m \<longrightarrow> circuitBreakerTimeout m \<noteq> None"
    and "currentConcurrent m = int (length (inflight m)) + 1"
    and "processing m \<longleftrightarrow> loopWake m \<noteq> None" and "0 < maxConcurrent m"
  shows "wellFormed (catchHandler error m)"
  using assms by (simp add: wellFormed_def catchHandler_def openCircuitBreaker_def Let_def)

lemma wellFormed_fire:
  assumes "wellFormed m"
  shows "wellFormed (fire e m)"
proof (cases e)
  case LoopWake
  show ?thesis
  proof (cases "loopWake m")
    case None
    then show ?thesis using assms LoopWake by (simp add: fire_def)
  next
    case (Some t)
    have "wellFormed (m\<lparr>now := max (now m) t\<rparr>)" using assms by (simp add: wellFormed_def)
    moreover have "processing (m\<lparr>now := max (now m) t\<rparr>)"
      using assms Some by (simp add: wellFormed_def)
    ultimately have "wellFormed (processQueueLoop (m\<lparr>now := max (now m) t\<rparr>))"
      by (rule wellFormed_processQueueLoop)
    then show ?thesis using LoopWake Some by (simp add: fire_def)
  qed
next
  case BreakerReset
  show ?thesis
  proof (cases "circuitBreakerTimeout m")
    case None
    then show ?thesis using assms BreakerReset by (simp add: fire_def)
  next
    case (Some t)
    let ?m1 = "m\<lparr>now := max (now m) t, circuitBreakerTimeout := None,
                 circuitBreakerOpen := False, consecutiveFailures := 0\<rparr>"
    have w1: "wellFormed ?m1" using assms by (simp add: wellFormed_def)
    have "fire BreakerReset m = ?m1 \<or> fire BreakerReset m = processQueue ?m1"
      using Some by (simp add: fire_def breakerReset_def Let_def split: list.splits)
    then show ?thesis using w1 BreakerReset by (auto intro: wellFormed_processQueue)
  qed
next
  case (Inflight i)
  show ?thesis
  proof (cases "i < length (inflight m)")
    case False
    then show ?thesis using assms Inflight by (simp add: fire_def)
  next
    case True
    then have len: "int (length (take i (inflight m) @ drop (Suc i) (inflight m))) + 1 =
                    currentConcurrent m"
      using assms by (simp add: wellFormed_def)
    from True show ?thesis
    proof (cases rule: inflight_cases)
      case (1 t queueItem)
      show ?thesis unfolding Inflight fire_success [OF 1]
        using assms len
        by (intro wellFormed_thenHandler) (auto simp: wellFormed_def split: option.splits)
    next
      case (2 t queueItem error)
      show ?thesis unfolding Inflight fire_terminal [OF 2]
        using assms len
        by (intro wellFormed_catchHandler) (auto simp: wellFormed_def)
    next
      case (3 t queueItem error)
      show ?thesis unfolding Inflight fire_retry [OF 3]
        using assms True by (simp add: wellFormed_def)
    next
      case (4 t queueItem)
      show ?thesis unfolding Inflight fire_backoff [OF 4]
        using assms len
        by (intro wellFormed_thenHandler) (auto simp: wellFormed_def)
    qed
  qed
qed


lemma wellFormed_addAll: "wellFormed m \<Longrightarrow> wellFormed (addAll reqs m)"
  by (induction reqs arbitrary: m) (auto simp: wellFormed_addToQueue)


lemma earliest_min:
  "earliest xs = Some x \<Longrightarrow> x \<in> set xs \<and> (\<forall>y\<in>set xs. fst x \<le> fst y)"
proof (induction xs arbitrary: x)
  case Nil
  then show ?case by simp
next
  case (Cons a xs)
  show ?case
  proof (cases "earliest xs")
    case None
    then have "xs = []" by (cases xs) (auto split: option.splits if_splits)
    then show ?thesis using Cons.prems by simp
  next
    case (Some y)
    from Cons.IH [OF Some] have y: "y \<in> set xs" "\<forall>z\<in>set xs. fst y \<le> fst z" by auto
    show ?thesis
    proof (cases "fst a \<le> fst y")
      case True
      then have "x = a" using Cons.prems Some by simp
      then show ?thesis using y True by auto
    next
      case False
      then have "x = y" using Cons.prems Some by simp
      then show ?thesis using y False by auto
    qed
  qed
qed

lemma pendingEvents_dueTime:
  "(t, e) \<in> set (pendingEvents m) \<longleftrightarrow> dueTime m e = Some t"
proof (cases e)
  case LoopWake
  then show ?thesis
    by (auto simp: pendingEvents_def dueTime_def in_set_enumerate_eq split: option.splits)
next
  case BreakerReset
  then show ?thesis
    by (auto simp: pendingEvents_def dueTime_def in_set_enumerate_eq split: option.splits)
next
  case (Inflight i)
  have "(t, Inflight i) \<in> set (pendingEvents m) \<longleftrightarrow>
        (\<exists>x\<in>set (enumerate 0 (inflight m)). (t, Inflight i) = (fst (snd x), Inflight (fst x)))"
    by (force simp: pendingEvents_def split: option.splits prod.splits)
  also have "\<dots> \<longleftrightarrow> (i < length (inflight m) \<and> fst (inflight m ! i) = t)"
    by (auto simp: in_set_enumerate_eq intro: bexI [where x = "(i, inflight m ! i)"])
  finally show ?thesis using Inflight by (auto simp: dueTime_def)
qed

lemma nextEvent_earliest:
  assumes "nextEvent m = Some e"
  shows "\<exists>t. dueTime m e = Some t \<and> (\<forall>e' t'. dueTime m e' = Some t' \<longrightarrow> t \<le> t')"
proof -
  from assms obtain t where ear: "earliest (pendingEvents m) = Some (t, e)"
    by (auto simp: nextEvent_def)
  from earliest_min [OF ear] have "(t, e) \<in> set (pendingEvents m)"
    and "\<forall>y\<in>set (pendingEvents m). t \<le> fst y" by auto
  then show ?thesis by (fastforce simp: pendingEvents_dueTime [symmetric])
qed

lemma now_processQueueLoop: "now (processQueueLoop m) = now m"
  by (cases "queue m")
     (simp_all add: processQueueLoop_def Let_def dispatch_closed split: option.splits)

lemma now_processQueue: "now (processQueue m) = now m"
  by (simp add: processQueue_def now_processQueueLoop)

lemma now_fire:
  assumes "dueTime m e = Some t"
  shows "now (fire e m) = max (now m) t"
proof (cases e)
  case LoopWake
  then show ?thesis using assms by (simp add: fire_def dueTime_def now_processQueueLoop)
next
  case BreakerReset
  then show ?thesis using assms
    by (simp add: fire_def dueTime_def breakerReset_def Let_def now_processQueue
             split: list.splits)
next
  case (Inflight i)
  then have i: "i < length (inflight m)" and t: "fst (inflight m ! i) = t"
    using assms by (auto simp: dueTime_def split: if_splits)
  from i show ?thesis
  proof (cases rule: inflight_cases)
    case (1 t' queueItem)
    with t have "t' = t" by (simp add: settles_def)
    then show ?thesis unfolding Inflight fire_success [OF 1]
      by (simp add: thenHandler_def split: option.splits)
  next
    case (2 t' queueItem error)
    with t have "t' = t" by (simp add: settles_def)
    then show ?thesis unfolding Inflight fire_terminal [OF 2]
      by (simp add: catchHandler_def openCircuitBreaker_def Let_def)
  next
    case (3 t' queueItem error)
    with t have "t' = t" by (simp add: settles_def)
    then show ?thesis unfolding Inflight fire_retry [OF 3] by simp
  next
    case (4 t' queueItem)
    with t have "t' = t" by (simp add: backsOff_def)
    then show ?thesis unfolding Inflight fire_backoff [OF 4] by (simp add: thenHandler_def)
  qed
qed



lemma attemptLog_processQueueLoop:
  "\<exists>k. attemptLog (processQueueLoop m) = attemptLog m @ map (Pair (now m)) (take k (queue m)) \<and>
       queue (processQueueLoop m) = drop k (queue m)"
proof (cases "queue m = []")
  case True
  then have "attemptLog (processQueueLoop m) = attemptLog m @ map (Pair (now m)) (take 0 (queue m)) \<and>
             queue (processQueueLoop m) = drop 0 (queue m)"
    by (simp add: processQueueLoop_empty split: option.splits)
  then show ?thesis ..
next
  case False
  show ?thesis
  proof (cases "circuitBreakerOpen m")
    case True
    then have "attemptLog (processQueueLoop m) = attemptLog m @ map (Pair (now m)) (take 0 (queue m)) \<and>
               queue (processQueueLoop m) = drop 0 (queue m)"
      using False by (simp add: processQueueLoop_open)
    then show ?thesis ..
  next
    case closed: False
    have "attemptLog (processQueueLoop m) =
            attemptLog m @ map (Pair (now m)) (take (dispatchCount m) (queue m)) \<and>
          queue (processQueueLoop m) = drop (dispatchCount m) (queue m)"
      using False closed by (simp add: processQueueLoop_closed dispatch_closed)
    then show ?thesis ..
  qed
qed

lemma attemptLog_processQueue:
  "\<exists>k. attemptLog (processQueue m) = attemptLog m @ map (Pair (now m)) (take k (queue m)) \<and>
       queue (processQueue m) = drop k (queue m)"
proof (cases "processing m")
  case True
  then have "attemptLog (processQueue m) = attemptLog m @ map (Pair (now m)) (take 0 (queue m)) \<and>
             queue (processQueue m) = drop 0 (queue m)"
    by (simp add: processQueue_def)
  then show ?thesis ..
next
  case False
  then show ?thesis
    using attemptLog_processQueueLoop [of "m\<lparr>processing := True\<rparr>"]
    by (simp add: processQueue_def)
qed

lemma fire_attempts:
  "\<exists>k pre. attemptLog (fire e m) =
             attemptLog m @ map (Pair (now (fire e m))) (take k (queue m)) \<and>
           queue (fire e m) = pre @ drop k (queue m)"
proof -
  have none: ?thesis if "attemptLog (fire e m) = attemptLog m" and "queue (fire e m) = pre @ queue m"
    for pre
  proof -
    from that have "attemptLog (fire e m) =
        attemptLog m @ map (Pair (now (fire e m))) (take 0 (queue m)) \<and>
        queue (fire e m) = pre @ drop 0 (queue m)" by simp
    then show ?thesis by blast
  qed
  show ?thesis
  proof (cases "dueTime m e")
    case None
    then have "fire e m = m"
      by (cases e) (auto simp: fire_def dueTime_def split: if_splits)
    then show ?thesis by (intro none [of "[]"]) simp_all
  next
    case (Some t)
    note nw = now_fire [OF Some]
    show ?thesis
    proof (cases e)
      case LoopWake
      let ?m1 = "m\<lparr>now := max (now m) t\<rparr>"
      have f: "fire e m = processQueueLoop ?m1"
        using LoopWake Some by (simp add: fire_def dueTime_def)
      obtain k where "attemptLog (processQueueLoop ?m1) =
          attemptLog ?m1 @ map (Pair (now ?m1)) (take k (queue ?m1))"
        and "queue (processQueueLoop ?m1) = drop k (queue ?m1)"
        using attemptLog_processQueueLoop [of ?m1] by blast
      then have "attemptLog (fire e m) =
          attemptLog m @ map (Pair (now (fire e m))) (take k (queue m)) \<and>
          queue (fire e m) = [] @ drop k (queue m)"
        using f nw by simp
      then show ?thesis by blast
    next
      case BreakerReset
      let ?m1 = "m\<lparr>now := max (now m) t, circuitBreakerTimeout := None,
                   circuitBreakerOpen := False, consecutiveFailures := 0\<rparr>"
      have "fire e m = ?m1 \<or> fire e m = processQueue ?m1"
        using BreakerReset Some
        by (simp add: fire_def dueTime_def breakerReset_def Let_def split: list.splits)
      then show ?thesis
      proof
        assume "fire e m = ?m1"
        then show ?thesis by (intro none [of "[]"]) simp_all
      next
        assume f: "fire e m = processQueue ?m1"
        obtain k where "attemptLog (processQueue ?m1) =
            attemptLog ?m1 @ map (Pair (now ?m1)) (take k (queue ?m1))"
          and "queue (processQueue ?m1) = drop k (queue ?m1)"
          using attemptLog_processQueue [of ?m1] by blast
        then have "attemptLog (fire e m) =
            attemptLog m @ map (Pair (now (fire e m))) (take k (queue m)) \<and>
            queue (fire e m) = [] @ drop k (queue m)"
          using f nw by simp
        then show ?thesis by blast
      qed
    next
      case (Inflight i)
      then have i: "i < length (inflight m)"
        using Some by (simp add: dueTime_def split: if_splits)
      from i show ?thesis
      proof (cases rule: inflight_cases)
        case (1 t queueItem)
        show ?thesis unfolding Inflight
          by (intro none [of "[]", unfolded Inflight])
             (simp_all add: fire_success [OF 1] thenHandler_def split: option.splits)
      next
        case (2 t queueItem error)
        show ?thesis unfolding Inflight
          by (intro none [of "[]", unfolded Inflight])
             (simp_all add: fire_terminal [OF 2] catchHandler_def openCircuitBreaker_def Let_def)
      next
        case (3 t queueItem error)
        show ?thesis unfolding Inflight
          by (intro none [of "[]", unfolded Inflight]) (simp_all add: fire_retry [OF 3])
      next
        case (4 t queueItem)
        show ?thesis unfolding Inflight
          by (intro none [of "[queueItem]", unfolded Inflight])
             (simp_all add: fire_backoff [OF 4] thenHandler_def)
      qed
    qed
  qed
qed

section \<open>Retry\<close>

text \<open>
  C3. When the task of a dispatched item fails with a retryable error while the item's
  retry count is below its \<open>maxRetries\<close>: \<open>totalRetries\<close> grows by one and the other
  counters stay; the item, with its retry count one higher, waits for the delay computed
  from the count it had, and is neither queued nor called meanwhile. When that wait
  ends, not before its due time, the item is put at the front of the pending queue.
  And whatever event fires, the tasks it calls are those of items taken from the front
  of the pending queue, so that an item that still waits is not called.
\<close>

theorem retry_backoff_reinsert:
  assumes "settles m i t queueItem (Rejected error)"
    and "isRetryable error" and "retries queueItem < maxRetries queueItem"
  shows "mstats (fire (Inflight i) m) =
           (mstats m)\<lparr>totalRetries := totalRetries (mstats m) + 1\<rparr> \<and>
         inflight (fire (Inflight i) m) =
           take i (inflight m) @ drop (Suc i) (inflight m) @
           [(max (now m) t + getRetryDelay (retries queueItem) (random m (draws m)),
             AwaitBackoff (queueItem\<lparr>retries := retries queueItem + 1\<rparr>))] \<and>
         queue (fire (Inflight i) m) = queue m \<and>
         attemptLog (fire (Inflight i) m) = attemptLog m \<and>
         (backsOff m' j due queueItem' \<longrightarrow>
            queue (fire (Inflight j) m') = queueItem' # queue m' \<and>
            attemptLog (fire (Inflight j) m') = attemptLog m' \<and>
            due \<le> now (fire (Inflight j) m')) \<and>
         (\<exists>k. attemptLog (fire e m'') =
                attemptLog m'' @ map (Pair (now (fire e m''))) (take k (queue m'')))"
proof -
  have "queue (fire (Inflight j) m') = queueItem' # queue m' \<and>
        attemptLog (fire (Inflight j) m') = attemptLog m' \<and>
        due \<le> now (fire (Inflight j) m')" if b: "backsOff m' j due queueItem'"
    by (simp add: fire_backoff [OF b] thenHandler_def)
  moreover have "\<exists>k. attemptLog (fire e m'') =
      attemptLog m'' @ map (Pair (now (fire e m''))) (take k (queue m''))"
    using fire_attempts [of e m''] by blast
  ultimately show ?thesis
    by (simp add: fire_retry [OF assms])
qed



section \<open>The event loop comes to rest\<close>

lemma sum_list_remove_nth:
  fixes f :: "'a \<Rightarrow> nat"
  shows "i < length xs \<Longrightarrow>
   sum_list (map f (take i xs @ drop (Suc i) xs)) + f (xs ! i) = sum_list (map f xs)"
proof -
  assume "i < length xs"
  then have "xs = take i xs @ xs ! i # drop (Suc i) xs" by (rule id_take_nth_drop)
  then have "sum_list (map f xs) = sum_list (map f (take i xs @ xs ! i # drop (Suc i) xs))"
    by simp
  then show ?thesis by simp
qed

lemma sum_list_take_drop:
  fixes f :: "'a \<Rightarrow> nat"
  shows "sum_list (map f (take k xs)) + sum_list (map f (drop k xs)) = sum_list (map f xs)"
proof -
  have "sum_list (map f (take k xs @ drop k xs)) = sum_list (map f xs)" by simp
  then show ?thesis by (simp only: map_append sum_list_append)
qed

lemma pendingWeight_started: "pendingWeight (started time queueItem) + 1 = queuedWeight queueItem"
  by (simp add: started_def queuedWeight_def)

lemma sum_started:
  "sum_list (map pendingWeight (map (started time) xs)) + length xs =
   sum_list (map queuedWeight xs)"
proof (induction xs)
  case Nil
  then show ?case by simp
next
  case (Cons x xs)
  then show ?case using pendingWeight_started [of time x] by simp
qed

lemma workLeft_dispatch: "workLeft (dispatch m) + dispatchCount m = workLeft m"
proof -
  let ?k = "dispatchCount m"
  have k: "length (take ?k (queue m)) = ?k" by (simp add: dispatchCount_def)
  have "workLeft (dispatch m) + ?k =
        sum_list (map queuedWeight (drop ?k (queue m))) +
        (sum_list (map pendingWeight (map (started (now m)) (take ?k (queue m)))) +
         length (take ?k (queue m))) +
        sum_list (map pendingWeight (inflight m)) + timerWeight (circuitBreakerTimeout m)"
    unfolding k by (simp add: workLeft_def dispatch_closed)
  also have "\<dots> = sum_list (map queuedWeight (drop ?k (queue m))) +
        sum_list (map queuedWeight (take ?k (queue m))) +
        sum_list (map pendingWeight (inflight m)) + timerWeight (circuitBreakerTimeout m)"
    by (simp only: sum_started)
  also have "\<dots> = workLeft m"
    using sum_list_take_drop [of queuedWeight ?k "queue m"] by (simp add: workLeft_def)
  finally show ?thesis .
qed


lemma workLeft_now [simp]: "workLeft (m\<lparr>now := t\<rparr>) = workLeft m"
  by (simp add: workLeft_def)

lemma horizon_ge_inflight:
  "i < length (inflight m) \<Longrightarrow> fst (inflight m ! i) \<le> horizon m"
proof -
  have "x \<in> set xs \<Longrightarrow> x \<le> foldr max xs (0::nat)" for x xs
    by (induction xs) auto
  moreover assume "i < length (inflight m)"
  ultimately have "fst (inflight m ! i) \<le> foldr max (map fst (inflight m)) 0" by simp
  then show ?thesis by (simp add: horizon_def)
qed

lemma horizon_ge_timer: "circuitBreakerTimeout m = Some d \<Longrightarrow> d \<le> horizon m"
  by (simp add: horizon_def)

lemma loopSlack_later:
  assumes "loopWake m = Some t" and "t \<le> horizon m" and "loopWake m' = Some t'" and "t < t'"
    and "horizon m' = horizon m"
  shows "loopSlack m' < loopSlack m"
  using assms by (simp add: loopSlack_def)

lemma fire_loop_decreases:
  assumes wf: "wellFormed m" and nx: "nextEvent m = Some LoopWake"
  shows "workLeft (fire LoopWake m) < workLeft m \<or>
         workLeft (fire LoopWake m) = workLeft m \<and> loopSlack (fire LoopWake m) < loopSlack m"
proof -
  from nextEvent_earliest [OF nx] obtain t where t: "loopWake m = Some t"
    and least: "\<And>e' t'. dueTime m e' = Some t' \<Longrightarrow> t \<le> t'"
    by (auto simp: dueTime_def)
  let ?m1 = "m\<lparr>now := max (now m) t\<rparr>"
  have f: "fire LoopWake m = processQueueLoop ?m1" using t by (simp add: fire_def)
  show ?thesis
  proof (cases "queue m = []")
    case True
    then have "workLeft (fire LoopWake m) = workLeft m \<and> loopSlack (fire LoopWake m) = 0"
      unfolding f by (simp add: processQueueLoop_empty workLeft_def loopSlack_def split: option.splits)
    moreover have "0 < loopSlack m" using t by (simp add: loopSlack_def)
    ultimately show ?thesis by simp
  next
    case False
    show ?thesis
    proof (cases "circuitBreakerOpen m")
      case True
      then obtain d where d: "circuitBreakerTimeout m = Some d"
        using wf by (auto simp: wellFormed_def)
      then have "dueTime m BreakerReset = Some d" by (simp add: dueTime_def)
      then have "t \<le> horizon m" using least horizon_ge_timer [OF d] by fastforce
      moreover have "fire LoopWake m = m\<lparr>now := max (now m) t, loopWake := Some (max (now m) t + 5000)\<rparr>"
        unfolding f using False True by (simp add: processQueueLoop_open)
      ultimately have "workLeft (fire LoopWake m) = workLeft m \<and>
                       loopSlack (fire LoopWake m) < loopSlack m"
        using t by (simp add: workLeft_def loopSlack_def horizon_def)
      then show ?thesis ..
    next
      case closed: False
      have fd: "fire LoopWake m = (dispatch ?m1)\<lparr>loopWake := Some (max (now m) t + 100)\<rparr>"
        unfolding f using False closed by (simp add: processQueueLoop_closed)
      have wl: "workLeft (fire LoopWake m) + dispatchCount ?m1 = workLeft m"
        using workLeft_dispatch [of ?m1] unfolding fd by (simp add: workLeft_def)
      show ?thesis
      proof (cases "dispatchCount ?m1 = 0")
        case False
        then show ?thesis using wl by linarith
      next
        case True
        then have "nat (maxConcurrent m - currentConcurrent m) = 0"
          using \<open>queue m \<noteq> []\<close> by (simp add: dispatchCount_def min_def split: if_splits)
        then have "maxConcurrent m \<le> currentConcurrent m" by simp
        then have "0 < int (length (inflight m))" using wf unfolding wellFormed_def by linarith
        then have "0 < length (inflight m)" by simp
        then have "dueTime m (Inflight 0) = Some (fst (inflight m ! 0))"
          and "fst (inflight m ! 0) \<le> horizon m"
          by (simp_all add: dueTime_def horizon_ge_inflight)
        then have "t \<le> horizon m" using least by fastforce
        moreover have "fire LoopWake m = m\<lparr>now := max (now m) t, loopWake := Some (max (now m) t + 100)\<rparr>"
          unfolding fd using True by (simp add: dispatch_closed)
        ultimately have "workLeft (fire LoopWake m) = workLeft m \<and>
                         loopSlack (fire LoopWake m) < loopSlack m"
          using t by (simp add: workLeft_def loopSlack_def horizon_def)
        then show ?thesis ..
      qed
    qed
  qed
qed


lemma timerWeight_le: "timerWeight x \<le> 1"
  by (simp add: timerWeight_def split: option.splits)

lemma fire_inflight_decreases:
  assumes "i < length (inflight m)"
  shows "workLeft (fire (Inflight i) m) < workLeft m"
  using assms
proof (cases rule: inflight_cases)
  case (1 t queueItem)
  then have e: "inflight m ! i = (t, AwaitTask queueItem Resolved)" by (simp add: settles_def)
  have "workLeft (fire (Inflight i) m) + pendingWeight (inflight m ! i) = workLeft m"
    unfolding fire_success [OF 1] using sum_list_remove_nth [OF assms, of pendingWeight]
    by (simp add: workLeft_def thenHandler_def split: option.splits)
  then show ?thesis unfolding e by simp
next
  case (2 t queueItem error)
  then have e: "inflight m ! i = (t, AwaitTask queueItem (Rejected error))"
    by (simp add: settles_def)
  have "workLeft (fire (Inflight i) m) + pendingWeight (inflight m ! i) \<le> workLeft m + 1"
    unfolding fire_terminal [OF 2]
    using sum_list_remove_nth [OF assms, of pendingWeight]
      timerWeight_le [of "Some (max (now m) t + 30000)"]
    by (simp add: workLeft_def catchHandler_def openCircuitBreaker_def Let_def)
  then show ?thesis unfolding e by simp
next
  case (3 t queueItem error)
  then have e: "inflight m ! i = (t, AwaitTask queueItem (Rejected error))"
    by (simp add: settles_def)
  have b: "itemBudget (queueItem\<lparr>retries := retries queueItem + 1\<rparr>) + 3 = itemBudget queueItem"
    using 3(3) by (simp add: itemBudget_def)
  have "workLeft (fire (Inflight i) m) + pendingWeight (inflight m ! i) =
        workLeft m + (itemBudget (queueItem\<lparr>retries := retries queueItem + 1\<rparr>) + 4)"
    unfolding fire_retry [OF 3] using sum_list_remove_nth [OF assms, of pendingWeight]
    by (simp add: workLeft_def)
  then show ?thesis unfolding e using b by simp
next
  case (4 t queueItem)
  then have e: "inflight m ! i = (t, AwaitBackoff queueItem)" by (simp add: backsOff_def)
  have "workLeft (fire (Inflight i) m) + pendingWeight (inflight m ! i) =
        workLeft m + queuedWeight queueItem"
    unfolding fire_backoff [OF 4] using sum_list_remove_nth [OF assms, of pendingWeight]
    by (simp add: workLeft_def thenHandler_def)
  then show ?thesis unfolding e by (simp add: queuedWeight_def)
qed

lemma workLeft_processQueue: "workLeft (processQueue m) \<le> workLeft m"
proof (cases "processing m")
  case True
  then show ?thesis by (simp add: processQueue_def)
next
  case False
  let ?m1 = "m\<lparr>processing := True\<rparr>"
  have w1: "workLeft ?m1 = workLeft m" by (simp add: workLeft_def)
  have "workLeft (processQueueLoop ?m1) \<le> workLeft ?m1"
  proof (cases "queue ?m1 = []")
    case True
    then show ?thesis by (simp add: processQueueLoop_empty workLeft_def split: option.splits)
  next
    case ne: False
    show ?thesis
    proof (cases "circuitBreakerOpen ?m1")
      case True
      then show ?thesis using ne by (simp add: processQueueLoop_open workLeft_def)
    next
      case False
      have "workLeft (processQueueLoop ?m1) = workLeft (dispatch ?m1)"
        using ne False by (simp add: processQueueLoop_closed workLeft_def)
      then show ?thesis using workLeft_dispatch [of ?m1] by linarith
    qed
  qed
  then show ?thesis using False w1 by (simp add: processQueue_def)
qed

lemma fire_reset_decreases:
  assumes "circuitBreakerTimeout m = Some t"
  shows "workLeft (fire BreakerReset m) < workLeft m"
proof -
  let ?m1 = "m\<lparr>now := max (now m) t, circuitBreakerTimeout := None,
               circuitBreakerOpen := False, consecutiveFailures := 0\<rparr>"
  have w1: "workLeft ?m1 + 1 = workLeft m"
    using assms by (simp add: workLeft_def timerWeight_def)
  have "fire BreakerReset m = ?m1 \<or> fire BreakerReset m = processQueue ?m1"
    using assms by (simp add: fire_def breakerReset_def Let_def split: list.splits)
  then have "workLeft (fire BreakerReset m) \<le> workLeft ?m1"
    using workLeft_processQueue [of ?m1] by auto
  then show ?thesis using w1 by linarith
qed

lemma fire_decreases:
  assumes "wellFormed m" and "nextEvent m = Some e"
  shows "(fire e m, m) \<in> measures [workLeft, loopSlack]"
proof (cases e)
  case LoopWake
  then show ?thesis using fire_loop_decreases [OF assms(1)] assms(2) by auto
next
  case BreakerReset
  then obtain t where "circuitBreakerTimeout m = Some t"
    using nextEvent_earliest [OF assms(2)] by (auto simp: dueTime_def)
  then show ?thesis using fire_reset_decreases BreakerReset by simp
next
  case (Inflight i)
  then have "i < length (inflight m)"
    using nextEvent_earliest [OF assms(2)] by (auto simp: dueTime_def split: if_splits)
  then show ?thesis using fire_inflight_decreases Inflight by simp
qed

text \<open>
  From every state the code can be in, the event loop comes to rest: there is a number
  of events after which none is pending.
\<close>

lemma run_terminates:
  assumes "wellFormed m"
  shows "\<exists>n m'. run n m = Some m' \<and> nextEvent m' = None \<and> wellFormed m'"
  using assms
proof (induction m rule: wf_induct_rule [OF wf_measures [of "[workLeft, loopSlack]"]])
  case (1 m)
  show ?case
  proof (cases "nextEvent m")
    case None
    then have "run 0 m = Some m" by simp
    then show ?thesis using None "1.prems" by blast
  next
    case (Some e)
    have "(fire e m, m) \<in> measures [workLeft, loopSlack]"
      using "1.prems" Some by (rule fire_decreases)
    moreover have "wellFormed (fire e m)" using "1.prems" by (rule wellFormed_fire)
    ultimately obtain n m' where "run n (fire e m) = Some m'" "nextEvent m' = None" "wellFormed m'"
      using "1.IH" by blast
    then have "run (Suc n) m = Some m' \<and> nextEvent m' = None \<and> wellFormed m'"
      using Some by simp
    then show ?thesis by blast
  qed
qed


lemma alive_fire:
  assumes wf: "wellFormed m" and al: "alive m"
  shows "alive (fire e m) \<or> queue (fire e m) = []"
proof (cases "dueTime m e")
  case None
  then have "fire e m = m"
    by (cases e) (auto simp: fire_def dueTime_def split: if_splits)
  then show ?thesis using al by simp
next
  case (Some t)
  show ?thesis
  proof (cases e)
    case LoopWake
    then have t: "loopWake m = Some t" using Some by (simp add: dueTime_def)
    then have p: "processing m" using wf by (simp add: wellFormed_def)
    let ?m1 = "m\<lparr>now := max (now m) t\<rparr>"
    have f: "fire e m = processQueueLoop ?m1" using LoopWake t by (simp add: fire_def)
    show ?thesis
    proof (cases "queue m = []")
      case True
      then show ?thesis unfolding f by (simp add: processQueueLoop_empty split: option.splits)
    next
      case False
      then have "processing (processQueueLoop ?m1)"
        using p by (cases "circuitBreakerOpen m")
          (simp_all add: processQueueLoop_open processQueueLoop_closed dispatch_closed)
      then show ?thesis unfolding f by (simp add: alive_def)
    qed
  next
    case BreakerReset
    then have t: "circuitBreakerTimeout m = Some t" using Some by (simp add: dueTime_def)
    let ?m1 = "m\<lparr>now := max (now m) t, circuitBreakerTimeout := None,
                 circuitBreakerOpen := False, consecutiveFailures := 0\<rparr>"
    show ?thesis
    proof (cases "queue m = []")
      case True
      then have "fire e m = ?m1"
        using BreakerReset t by (simp add: fire_def breakerReset_def Let_def)
      then show ?thesis using True by simp
    next
      case False
      then obtain x xs where q: "queue m = x # xs" by (cases "queue m") auto
      have "processing (fire e m)"
      proof (cases "processing m")
        case True
        then show ?thesis using BreakerReset t q
          by (simp add: fire_def breakerReset_def Let_def)
      next
        case False
        then have "fire e m = processQueueLoop (?m1\<lparr>processing := True\<rparr>)"
          using BreakerReset t q
          by (simp add: fire_def breakerReset_def Let_def processQueue_def)
        then show ?thesis using q
          by (simp add: processQueueLoop_closed dispatch_closed)
      qed
      then show ?thesis by (simp add: alive_def)
    qed
  next
    case (Inflight i)
    then have i: "i < length (inflight m)"
      using Some by (simp add: dueTime_def split: if_splits)
    from i have "alive (fire (Inflight i) m)"
    proof (cases rule: inflight_cases)
      case (1 t queueItem)
      show ?thesis unfolding fire_success [OF 1]
        using al by (simp add: alive_def thenHandler_def split: option.splits)
    next
      case (2 t queueItem error)
      show ?thesis unfolding fire_terminal [OF 2]
        using al by (auto simp: alive_def catchHandler_def openCircuitBreaker_def Let_def)
    next
      case (3 t queueItem error)
      show ?thesis unfolding fire_retry [OF 3] using al by (simp add: alive_def)
    next
      case (4 t queueItem)
      show ?thesis unfolding fire_backoff [OF 4]
        using al by (simp add: alive_def thenHandler_def)
    qed
    then show ?thesis using Inflight by simp
  qed
qed

lemma served_fire:
  assumes wf: "wellFormed m" and sv: "served q0 a0 m"
  shows "served q0 a0 (fire e m)"
proof -
  from sv obtain j pre where q: "queue m = pre @ drop j q0"
    and called: "set (take j q0) \<subseteq> snd ` set (drop a0 (attemptLog m))"
    and a0: "a0 \<le> length (attemptLog m)"
    and live: "drop j q0 = [] \<or> alive m"
    by (auto simp: served_def)
  obtain k pre2 where log: "attemptLog (fire e m) =
      attemptLog m @ map (Pair (now (fire e m))) (take k (queue m))"
    and q': "queue (fire e m) = pre2 @ drop k (queue m)"
    using fire_attempts [of e m] by blast
  let ?j' = "j + (k - length pre)"
  let ?pre' = "pre2 @ drop k pre"
  have shape: "queue (fire e m) = ?pre' @ drop ?j' q0"
    unfolding q' q by (simp add: add.commute)
  have dropped: "snd ` set (drop a0 (attemptLog (fire e m))) =
        snd ` set (drop a0 (attemptLog m)) \<union> set (take k (queue m))"
    unfolding log using a0 by (simp add: image_Un image_image)
  have "take ?j' q0 = take j q0 @ take (k - length pre) (drop j q0)"
    by (rule take_add)
  moreover have "set (take (k - length pre) (drop j q0)) \<subseteq> set (take k (queue m))"
    unfolding q by simp
  ultimately have called': "set (take ?j' q0) \<subseteq> snd ` set (drop a0 (attemptLog (fire e m)))"
    using called unfolding dropped by auto
  have a0': "a0 \<le> length (attemptLog (fire e m))" unfolding log using a0 by simp
  have live': "drop ?j' q0 = [] \<or> alive (fire e m)"
  proof (cases "drop j q0 = []")
    case True
    then show ?thesis by simp
  next
    case False
    then have "alive m" using live by simp
    from alive_fire [OF wf this, of e] show ?thesis
    proof
      assume "alive (fire e m)"
      then show ?thesis ..
    next
      assume "queue (fire e m) = []"
      then have "drop ?j' q0 = []" unfolding shape by (simp only: append_is_Nil_conv)
      then show ?thesis ..
    qed
  qed
  show ?thesis unfolding served_def using shape called' a0' live' by blast
qed

lemma served_run:
  "wellFormed m \<Longrightarrow> served q0 a0 m \<Longrightarrow> run n m = Some m' \<Longrightarrow> served q0 a0 m'"
proof (induction n arbitrary: m)
  case 0
  then show ?case by (simp split: option.splits)
next
  case (Suc n)
  show ?case
  proof (cases "nextEvent m")
    case None
    then show ?thesis using Suc.prems by simp
  next
    case (Some e)
    then have "run n (fire e m) = Some m'" using Suc.prems(3) by simp
    moreover have "wellFormed (fire e m)" using Suc.prems(1) by (rule wellFormed_fire)
    moreover have "served q0 a0 (fire e m)" using Suc.prems(1,2) by (rule served_fire)
    ultimately show ?thesis by (rule Suc.IH [rotated 2])
  qed
qed

lemma rest_not_alive:
  assumes "nextEvent m = None" and "wellFormed m"
  shows "\<not> alive m \<and> \<not> circuitBreakerOpen m \<and> \<not> processing m \<and> inflight m = []"
proof -
  have "earliest xs = None \<Longrightarrow> xs = []" for xs
    by (cases xs) (auto split: option.splits if_splits)
  then have "pendingEvents m = []" using assms(1) by (simp add: nextEvent_def)
  then have "loopWake m = None" and "circuitBreakerTimeout m = None" and "inflight m = []"
    by (auto simp: pendingEvents_def enumerate_eq_zip split: option.splits)
  then show ?thesis using assms(2) by (auto simp: wellFormed_def alive_def)
qed

text \<open>
  From a state in which the loop is running or the breaker's timer is pending, the event
  loop comes to rest, and by then every item that was pending has been dispatched.
\<close>

lemma run_drains:
  assumes "wellFormed m" and "alive m"
  shows "\<exists>n m'. run n m = Some m' \<and> nextEvent m' = None \<and> wellFormed m' \<and>
                set (queue m) \<subseteq> calledSince (length (attemptLog m)) m'"
proof -
  obtain n m' where r: "run n m = Some m'" and rest: "nextEvent m' = None" and wf': "wellFormed m'"
    using run_terminates [OF assms(1)] by blast
  have "served (queue m) (length (attemptLog m)) m"
    unfolding served_def using assms(2)
    by (intro exI [of _ 0] exI [of _ "[]"]) simp
  from served_run [OF assms(1) this r]
  obtain j where "set (take j (queue m)) \<subseteq> snd ` set (drop (length (attemptLog m)) (attemptLog m'))"
    and "drop j (queue m) = [] \<or> alive m'"
    by (auto simp: served_def)
  moreover have "\<not> alive m'" using rest_not_alive [OF rest wf'] by simp
  ultimately have "set (queue m) \<subseteq> calledSince (length (attemptLog m)) m'"
    by (simp add: calledSince_def)
  then show ?thesis using r rest wf' by blast
qed


section \<open>Terminal failures\<close>

lemma addBatch_fulfils: "fst (addBatch tasks p m) = Inr ()"
  by (induction tasks arbitrary: m) (simp_all add: addToQueue_def Let_def)

lemma fire_terminal_frame:
  assumes "settles m i t queueItem (Rejected error)" and "terminalFailure queueItem error"
  shows "mstats (fire (Inflight i) m) =
           (mstats m)\<lparr>totalFailed := totalFailed (mstats m) + 1,
                       totalProcessed := totalProcessed (mstats m) + 1\<rparr> \<and>
         consecutiveFailures (fire (Inflight i) m) = consecutiveFailures m + 1 \<and>
         queue (fire (Inflight i) m) = queue m \<and>
         processing (fire (Inflight i) m) = processing m \<and>
         loopWake (fire (Inflight i) m) = loopWake m \<and>
         attemptLog (fire (Inflight i) m) = attemptLog m \<and>
         progressCalls (fire (Inflight i) m) = progressCalls m \<and>
         completeCalls (fire (Inflight i) m) = completeCalls m"
  unfolding fire_terminal [OF assms]
  by (simp add: catchHandler_def openCircuitBreaker_def Let_def)

text \<open>
  C6. When the task of a dispatched item fails for good (the error is not retryable, or
  the retries are used up), \<open>_processTask\<close> throws, and the handler of \<open>processQueue\<close>
  absorbs the error: the step adds one to \<open>totalFailed\<close>, to \<open>totalProcessed\<close> and to the
  consecutive-failure counter, and leaves the pending queue, the loop and the logs of
  calls as they were. The promises of \<open>addToQueue\<close> and \<open>addBatch\<close> are always fulfilled.
  And if the loop was running, the events that follow come to rest only after every
  item that was pending has been dispatched.
\<close>

theorem terminal_failure_contained:
  assumes "settles m i t queueItem (Rejected error)" and "terminalFailure queueItem error"
  shows "fst (processTaskResume queueItem (Rejected error) m) = Thrown error \<and>
         mstats (fire (Inflight i) m) =
           (mstats m)\<lparr>totalFailed := totalFailed (mstats m) + 1,
                       totalProcessed := totalProcessed (mstats m) + 1\<rparr> \<and>
         consecutiveFailures (fire (Inflight i) m) = consecutiveFailures m + 1 \<and>
         queue (fire (Inflight i) m) = queue m \<and>
         processing (fire (Inflight i) m) = processing m \<and>
         loopWake (fire (Inflight i) m) = loopWake m \<and>
         attemptLog (fire (Inflight i) m) = attemptLog m \<and>
         progressCalls (fire (Inflight i) m) = progressCalls m \<and>
         completeCalls (fire (Inflight i) m) = completeCalls m \<and>
         fst (addToQueue tk p m0) = Inr (newItem tk p (now m0)) \<and>
         fst (addBatch tasks p m0) = Inr () \<and>
         (wellFormed m \<and> processing m \<longrightarrow>
            (\<exists>n m'. run n (fire (Inflight i) m) = Some m' \<and> nextEvent m' = None \<and>
                    set (queue m) \<subseteq> calledSince (length (attemptLog m)) m'))"
proof -
  note frame = fire_terminal_frame [OF assms]
  have thrown: "fst (processTaskResume queueItem (Rejected error) m) = Thrown error"
    using assms(2) by (auto simp: processTaskResume_def terminalFailure_def Let_def)
  have drains: "\<exists>n m'. run n (fire (Inflight i) m) = Some m' \<and> nextEvent m' = None \<and>
                       set (queue m) \<subseteq> calledSince (length (attemptLog m)) m'"
    if wf: "wellFormed m" and p: "processing m"
  proof -
    have "wellFormed (fire (Inflight i) m)" using wf by (rule wellFormed_fire)
    moreover have "alive (fire (Inflight i) m)" using p frame by (simp add: alive_def)
    ultimately obtain n m' where "run n (fire (Inflight i) m) = Some m'" "nextEvent m' = None"
      "set (queue (fire (Inflight i) m)) \<subseteq>
         calledSince (length (attemptLog (fire (Inflight i) m))) m'"
      using run_drains by blast
    then show ?thesis using frame by auto
  qed
  have "fst (addToQueue tk p m0) = Inr (newItem tk p (now m0))"
    by (simp add: addToQueue_def Let_def)
  then show ?thesis using frame thrown drains addBatch_fulfils by blast
qed

section \<open>The circuit breaker\<close>







section \<open>The counters\<close>

lemma length_enqueue: "length (enqueue queueItem q) = Suc (length q)"
  by (auto simp: enqueue_def splice0_def min_def split: option.splits)

lemma processQueueLoop_counters:
  "mstats (processQueueLoop m) = mstats m \<and>
   length (queue (processQueueLoop m)) + length (inflight (processQueueLoop m)) =
     length (queue m) + length (inflight m)"
proof (cases "queue m = []")
  case True
  then show ?thesis by (simp add: processQueueLoop_empty split: option.splits)
next
  case False
  have "dispatchCount m \<le> length (queue m)" by (simp add: dispatchCount_def)
  then show ?thesis using False
    by (cases "circuitBreakerOpen m")
       (simp_all add: processQueueLoop_open processQueueLoop_closed dispatch_closed min_absorb2)
qed

lemma processQueue_counters:
  "mstats (processQueue m) = mstats m \<and>
   length (queue (processQueue m)) + length (inflight (processQueue m)) =
     length (queue m) + length (inflight m)"
  using processQueueLoop_counters [of "m\<lparr>processing := True\<rparr>"]
  by (simp add: processQueue_def)

text \<open>
  What the counters do satisfy: \<open>totalSuccess + totalFailed = totalProcessed\<close> is kept by
  every event and by \<open>addToQueue\<close>, and no item is lost: the number of items processed,
  pending or in flight is kept by every event and grows by one with \<open>addToQueue\<close>.
\<close>

lemma counters_fire:
  "(statsBalanced m \<longrightarrow> statsBalanced (fire e m)) \<and> accounted (fire e m) = accounted m"
proof (cases "dueTime m e")
  case None
  then have "fire e m = m"
    by (cases e) (auto simp: fire_def dueTime_def split: if_splits)
  then show ?thesis by simp
next
  case (Some t)
  show ?thesis
  proof (cases e)
    case LoopWake
    then have "fire e m = processQueueLoop (m\<lparr>now := max (now m) t\<rparr>)"
      using Some by (simp add: fire_def dueTime_def)
    then show ?thesis using processQueueLoop_counters [of "m\<lparr>now := max (now m) t\<rparr>"]
      by (simp add: statsBalanced_def accounted_def)
  next
    case BreakerReset
    let ?m1 = "m\<lparr>now := max (now m) t, circuitBreakerTimeout := None,
                 circuitBreakerOpen := False, consecutiveFailures := 0\<rparr>"
    have "fire e m = ?m1 \<or> fire e m = processQueue ?m1"
      using BreakerReset Some
      by (simp add: fire_def dueTime_def breakerReset_def Let_def split: list.splits)
    then show ?thesis using processQueue_counters [of ?m1]
      by (auto simp: statsBalanced_def accounted_def)
  next
    case (Inflight i)
    then have i: "i < length (inflight m)"
      using Some by (simp add: dueTime_def split: if_splits)
    from i show ?thesis
    proof (cases rule: inflight_cases)
      case (1 t queueItem)
      show ?thesis unfolding Inflight fire_success [OF 1] using i
        by (auto simp: statsBalanced_def accounted_def thenHandler_def split: option.splits)
    next
      case (2 t queueItem error)
      show ?thesis unfolding Inflight fire_terminal [OF 2] using i
        by (simp add: statsBalanced_def accounted_def catchHandler_def openCircuitBreaker_def
            Let_def)
    next
      case (3 t queueItem error)
      show ?thesis unfolding Inflight fire_retry [OF 3] using i
        by (simp add: statsBalanced_def accounted_def)
    next
      case (4 t queueItem)
      show ?thesis unfolding Inflight fire_backoff [OF 4] using i
        by (simp add: statsBalanced_def accounted_def thenHandler_def)
    qed
  qed
qed

lemma counters_addToQueue:
  "(statsBalanced m \<longrightarrow> statsBalanced (snd (addToQueue t p m))) \<and>
   accounted (snd (addToQueue t p m)) = accounted m + 1"
  using processQueue_counters [of "m\<lparr>queue := enqueue (newItem t p (now m)) (queue m)\<rparr>"]
  by (simp add: addToQueue_def Let_def statsBalanced_def accounted_def length_enqueue)

lemma counters_resetStats: "statsBalanced (resetStats m)"
  by (simp add: statsBalanced_def resetStats_def zeroStats_def)


section \<open>Runs of the event loop on concrete inputs\<close>

lemmas obs_defs = attemptCount_def pendingCount_def progressCount_def

text \<open>
  C1. The loop of \<open>processQueue\<close> exits, and \<open>onComplete\<close> fires, as soon as the pending
  queue is empty, without waiting for the tasks in flight: with one task that takes
  200 ms, \<open>onComplete\<close> is called at 100 ms with all four totals at 0 and one task in
  flight, and the task is counted only afterwards.
\<close>

theorem slow_task_completes_after_onComplete:
  "map_option completeCalls slowRun =
     Some [(100, \<lparr>vStats = \<lparr>totalProcessed = 0, totalSuccess = 0, totalFailed = 0,
                              totalRetries = 0\<rparr>,
                   vQueueLength = 0, vProcessing = False, vCurrentConcurrent = 1,
                   vCircuitBreakerOpen = False\<rparr>)] \<and>
   map_option mstats slowRun =
     Some \<lparr>totalProcessed = 1, totalSuccess = 1, totalFailed = 0, totalRetries = 0\<rparr>"
  unfolding slowRun_def by (simp add: queue_defs Let_def run_numeral enumerate_eq_zip)

text \<open>
  With twelve tasks that settle at once the scenario of the specification does hold:
  \<open>onComplete\<close> is called once, at 400 ms, with 12 processed and 12 succeeded.
\<close>

lemma twelveOk_unfold:
  "twelveOk = [(okTask, 0), (okTask, 0), (okTask, 0), (okTask, 0), (okTask, 0), (okTask, 0),
               (okTask, 0), (okTask, 0), (okTask, 0), (okTask, 0), (okTask, 0), (okTask, 0)]"
  by (simp add: twelveOk_def numeral_eq_Suc)

lemma twelve_immediate_tasks:
  "map_option completeCalls twelveOkRun =
     Some [(400, \<lparr>vStats = \<lparr>totalProcessed = 12, totalSuccess = 12, totalFailed = 0,
                              totalRetries = 0\<rparr>,
                   vQueueLength = 0, vProcessing = False, vCurrentConcurrent = 0,
                   vCircuitBreakerOpen = False\<rparr>)]"
  unfolding twelveOkRun_def twelveOk_unfold
  by (simp add: queue_defs Let_def run_numeral enumerate_eq_zip)

lemma getRetryDelay_bounds:
  "j < 1000 \<Longrightarrow>
   min (1000 * 2 ^ n) 30000 \<le> getRetryDelay n j \<and>
   getRetryDelay n j < min (1000 * 2 ^ n) 30000 + 1000"
  by (simp add: getRetryDelay_def Let_def)

lemma getRetryDelay_nondecreasing:
  assumes "j < 1000" and "n \<le> 4"
  shows "getRetryDelay n j \<le> getRetryDelay (Suc n) j'"
proof -
  from assms(2) consider "n = 0" | "n = 1" | "n = 2" | "n = 3" | "n = 4" by linarith
  then show ?thesis using assms(1)
    by cases (simp_all add: getRetryDelay_def Let_def)
qed

text \<open>
  C9. The delay is \<open>min (1000 * 2 ^ retryCount) 30000\<close> plus the jitter, and for the retry
  counts the queue uses (0, 1, 2) successive delays do not decrease whatever the jitter.
  But one item whose task always rejects with "rate limit" is attempted once, not four
  times: the loop exits 100 ms after the dispatch, the item comes back to the queue
  after its backoff of at least 1000 ms, and nothing dispatches it again. The run ends
  with one attempt, \<open>totalRetries = 1\<close>, \<open>totalFailed = 0\<close> and the item still pending.
\<close>

theorem rate_limited_item_single_attempt:
  "map_option attemptCount rateLimitedRun = Some 1 \<and>
   map_option mstats rateLimitedRun =
     Some \<lparr>totalProcessed = 0, totalSuccess = 0, totalFailed = 0, totalRetries = 1\<rparr> \<and>
   map_option pendingCount rateLimitedRun = Some 1 \<and>
   map_option processing rateLimitedRun = Some False \<and>
   map_option inflight rateLimitedRun = Some []"
  unfolding rateLimitedRun_def
  by (simp add: queue_defs obs_defs Let_def run_numeral enumerate_eq_zip)

text \<open>
  C8. \<open>onProgress\<close> is called in the success branch of \<open>_processTask\<close> only. One item
  whose task rejects with an error that is not retryable is counted as processed and
  failed, and the run ends without any call of the registered \<open>onProgress\<close>.
\<close>

theorem terminal_failure_no_progress_call:
  "map_option progressCount forbiddenRun = Some 0 \<and>
   map_option onProgress forbiddenRun = Some (Some 2) \<and>
   map_option mstats forbiddenRun =
     Some \<lparr>totalProcessed = 1, totalSuccess = 0, totalFailed = 1, totalRetries = 0\<rparr> \<and>
   map_option pendingCount forbiddenRun = Some 0 \<and>
   map_option processing forbiddenRun = Some False"
  unfolding forbiddenRun_def
  by (simp add: queue_defs obs_defs Let_def run_numeral enumerate_eq_zip)


section \<open>The theorems at concrete states\<close>






lemma wellFormed_freshManager: "wellFormed freshManager"
  by (simp add: wellFormed_def freshManager_def setOnComplete_def setOnProgress_def
      resetStats_def newManager_def)




lemma failingPair_eval:
  "failingPair =
     \<lparr>queue = [newItem okTask 0 0], processing = True, currentConcurrent = 1,
      maxConcurrent = 5, consecutiveFailures = 0, maxConsecutiveFailures = 10,
      circuitBreakerOpen = False, circuitBreakerTimeout = None, mstats = zeroStats,
      onProgress = Some 2, onComplete = Some 1, now = 0, loopWake = Some 100,
      inflight = [(0, AwaitTask forbiddenItem (Rejected forbiddenError))],
      random = noJitter, draws = 0, attemptLog = [(0, forbiddenItem)],
      progressCalls = [], completeCalls = []\<rparr>"
  unfolding failingPair_def forbiddenItem_def
  by (simp add: queue_defs Let_def)

theorem terminal_failure_contained_witness:
  "settles failingPair 0 0 forbiddenItem (Rejected forbiddenError) \<and>
   terminalFailure forbiddenItem forbiddenError \<and>
   fst (processTaskResume forbiddenItem (Rejected forbiddenError) failingPair) =
     Thrown forbiddenError \<and>
   mstats (fire (Inflight 0) failingPair) =
     \<lparr>totalProcessed = 1, totalSuccess = 0, totalFailed = 1, totalRetries = 0\<rparr> \<and>
   consecutiveFailures (fire (Inflight 0) failingPair) = 1 \<and>
   queue (fire (Inflight 0) failingPair) = [newItem okTask 0 0] \<and>
   processing (fire (Inflight 0) failingPair) \<and>
   loopWake (fire (Inflight 0) failingPair) = Some 100 \<and>
   attemptLog (fire (Inflight 0) failingPair) = [(0, forbiddenItem)] \<and>
   fst (addToQueue forbiddenTask 0 freshManager) = Inr forbiddenItem \<and>
   fst (addBatch [forbiddenTask, okTask] 0 freshManager) = Inr () \<and>
   wellFormed failingPair \<and> processing failingPair \<and>
   (\<exists>n m'. run n (fire (Inflight 0) failingPair) = Some m' \<and> nextEvent m' = None \<and>
           set (queue failingPair) \<subseteq> calledSince (length (attemptLog failingPair)) m')"
proof -
  have h1: "settles failingPair 0 0 forbiddenItem (Rejected forbiddenError)"
    by (simp add: settles_def failingPair_eval)
  have h2: "terminalFailure forbiddenItem forbiddenError"
    by (simp add: terminalFailure_def forbidden_not_retryable)
  have wf: "wellFormed failingPair"
    unfolding failingPair_def by (intro wellFormed_addAll wellFormed_freshManager)
  have p: "processing failingPair" by (simp add: failingPair_eval)
  note main = terminal_failure_contained [OF h1 h2, where tk = forbiddenTask and p = 0
      and ?m0.0 = freshManager and tasks = "[forbiddenTask, okTask]"]
  have c1: "mstats (fire (Inflight 0) failingPair) =
     \<lparr>totalProcessed = 1, totalSuccess = 0, totalFailed = 1, totalRetries = 0\<rparr>"
    using main by (simp add: failingPair_eval zeroStats_def)
  have c2: "consecutiveFailures (fire (Inflight 0) failingPair) = 1"
    "queue (fire (Inflight 0) failingPair) = [newItem okTask 0 0]"
    "processing (fire (Inflight 0) failingPair)"
    "loopWake (fire (Inflight 0) failingPair) = Some 100"
    "attemptLog (fire (Inflight 0) failingPair) = [(0, forbiddenItem)]"
    using main by (simp_all add: failingPair_eval)
  have c3: "fst (addToQueue forbiddenTask 0 freshManager) = Inr forbiddenItem"
    using main by (simp add: forbiddenItem_def freshManager_def setOnComplete_def
        setOnProgress_def resetStats_def newManager_def)
  have c4: "\<exists>n m'. run n (fire (Inflight 0) failingPair) = Some m' \<and> nextEvent m' = None \<and>
           set (queue failingPair) \<subseteq> calledSince (length (attemptLog failingPair)) m'"
    using main wf p by blast
  show ?thesis
    using h1 h2 wf p c1 c2 c3 c4 main by (intro conjI) simp_all
qed

lemma rateLimitedStart_eval:
  "rateLimitedStart =
     \<lparr>queue = [], processing = True, currentConcurrent = 1,
      maxConcurrent = 5, consecutiveFailures = 0, maxConsecutiveFailures = 10,
      circuitBreakerOpen = False, circuitBreakerTimeout = None, mstats = zeroStats,
      onProgress = Some 2, onComplete = Some 1, now = 0, loopWake = Some 100,
      inflight = [(0, AwaitTask rateLimitedItem (Rejected rateLimitedError))],
      random = noJitter, draws = 0, attemptLog = [(0, rateLimitedItem)],
      progressCalls = [], completeCalls = []\<rparr>"
  unfolding rateLimitedStart_def rateLimitedItem_def
  by (simp add: queue_defs Let_def)

theorem retry_backoff_reinsert_witness:
  "settles rateLimitedStart 0 0 rateLimitedItem (Rejected rateLimitedError) \<and>
   isRetryable rateLimitedError \<and>
   retries rateLimitedItem < maxRetries rateLimitedItem \<and>
   mstats rateLimitedWaiting =
     \<lparr>totalProcessed = 0, totalSuccess = 0, totalFailed = 0, totalRetries = 1\<rparr> \<and>
   inflight rateLimitedWaiting = [(1000, AwaitBackoff (rateLimitedItem\<lparr>retries := 1\<rparr>))] \<and>
   queue rateLimitedWaiting = [] \<and>
   attemptLog rateLimitedWaiting = [(0, rateLimitedItem)] \<and>
   backsOff rateLimitedWaiting 0 1000 (rateLimitedItem\<lparr>retries := 1\<rparr>) \<and>
   queue (fire (Inflight 0) rateLimitedWaiting) = [rateLimitedItem\<lparr>retries := 1\<rparr>] \<and>
   attemptLog (fire (Inflight 0) rateLimitedWaiting) = [(0, rateLimitedItem)] \<and>
   1000 \<le> now (fire (Inflight 0) rateLimitedWaiting) \<and>
   (\<exists>k. attemptLog (fire LoopWake rateLimitedStart) =
          attemptLog rateLimitedStart @
          map (Pair (now (fire LoopWake rateLimitedStart))) (take k (queue rateLimitedStart)))"
proof -
  have h1: "settles rateLimitedStart 0 0 rateLimitedItem (Rejected rateLimitedError)"
    by (simp add: settles_def rateLimitedStart_eval)
  have h3: "retries rateLimitedItem < maxRetries rateLimitedItem"
    by (simp add: rateLimitedItem_def newItem_def)
  note main = retry_backoff_reinsert [OF h1 rateLimited_retryable h3,
      where m' = rateLimitedWaiting and j = 0 and due = 1000
        and queueItem' = "rateLimitedItem\<lparr>retries := 1\<rparr>"
        and e = LoopWake and m'' = rateLimitedStart, folded rateLimitedWaiting_def]
  have r0: "retries rateLimitedItem = 0" by (simp add: rateLimitedItem_def newItem_def)
  have c1: "mstats rateLimitedWaiting =
     \<lparr>totalProcessed = 0, totalSuccess = 0, totalFailed = 0, totalRetries = 1\<rparr>"
    "inflight rateLimitedWaiting = [(1000, AwaitBackoff (rateLimitedItem\<lparr>retries := 1\<rparr>))]"
    "queue rateLimitedWaiting = []"
    "attemptLog rateLimitedWaiting = [(0, rateLimitedItem)]"
    using main
    by (simp_all add: rateLimitedStart_eval zeroStats_def r0 getRetryDelay_def noJitter_def)
  have b: "backsOff rateLimitedWaiting 0 1000 (rateLimitedItem\<lparr>retries := 1\<rparr>)"
    using c1 by (simp add: backsOff_def)
  have c2: "queue (fire (Inflight 0) rateLimitedWaiting) = [rateLimitedItem\<lparr>retries := 1\<rparr>]"
    "attemptLog (fire (Inflight 0) rateLimitedWaiting) = [(0, rateLimitedItem)]"
    "1000 \<le> now (fire (Inflight 0) rateLimitedWaiting)"
    using main b c1 by simp_all
  have c3: "\<exists>k. attemptLog (fire LoopWake rateLimitedStart) =
          attemptLog rateLimitedStart @
          map (Pair (now (fire LoopWake rateLimitedStart))) (take k (queue rateLimitedStart))"
    using main by blast
  show ?thesis
    using h1 rateLimited_retryable h3 c1 b c2 c3 by (intro conjI) simp_all
qed


section \<open>The transfer with retry\<close>














section \<open>The batch transfer\<close>
























end
